theory Spec2Isabelle
  imports Main "HOL-Library.Sublist" "HOL-Library.AList"
begin

section \<open>The Doxygen runner of render-docs\<close>

text \<open>
  A shallow embedding of the class \<open>DoxygenRunner\<close> and of the two directory helpers it
  calls (\<open>createDirectories\<close>, \<open>cleanDirectory\<close>).  JavaScript strings are modelled as
  \<^typ>\<open>string\<close>, that is as lists of 8-bit characters; of the four line terminators
  that the regular-expression atom \<open>.\<close> refuses, the two that exist among these
  characters are line feed and carriage return.
\<close>

subsection \<open>String primitives\<close>

text \<open>\<open>s.includes(t)\<close>: does \<open>t\<close> occur in \<open>s\<close> as a contiguous block?\<close>

fun includes_str :: "string \<Rightarrow> string \<Rightarrow> bool" where
  "includes_str [] t = (t = [])"
| "includes_str (c # cs) t = (prefix t (c # cs) \<or> includes_str cs t)"

text \<open>
  \<open>s.replace(/pat/g, rep)\<close> for a pattern that is a non-empty literal text: the input is
  scanned from the left, and the scan resumes behind each occurrence it has replaced.
\<close>

fun replaceAll :: "string \<Rightarrow> string \<Rightarrow> string \<Rightarrow> string" where
  "replaceAll pat rep [] = []"
| "replaceAll pat rep (c # cs) =
     (if pat \<noteq> [] \<and> prefix pat (c # cs)
      then rep @ replaceAll pat rep (drop (length pat - 1) cs)
      else c # replaceAll pat rep cs)"

text \<open>\<open>s.split(sep)\<close> for a separator of one character; the result is never empty.\<close>

fun split :: "char \<Rightarrow> string \<Rightarrow> string list" where
  "split sep [] = [[]]"
| "split sep (c # cs) =
     (if c = sep then [] # split sep cs
      else (case split sep cs of [] \<Rightarrow> [[c]] | l # ls \<Rightarrow> (c # l) # ls))"

text \<open>\<open>xs.join(sep)\<close>.\<close>

fun join :: "string \<Rightarrow> string list \<Rightarrow> string" where
  "join sep [] = []"
| "join sep [x] = x"
| "join sep (x # y # ys) = x @ sep @ join sep (y # ys)"

subsection \<open>Regular expressions\<close>

text \<open>
  The fragment of regular expressions that the runner uses: a sequence of items, each a
  single atom or an atom under the greedy \<open>+\<close>.  The atoms are a literal character, a
  negated class \<open>[^...]\<close>, \<open>\d\<close> and \<open>.\<close>.
\<close>

datatype atom = Lit char | NoneOf "char list" | Digit | Dot

datatype item = One atom | Plus atom

definition isDigit :: "char \<Rightarrow> bool" where
  "isDigit c = (c \<in> set ''0123456789'')"

definition isLineTerminator :: "char \<Rightarrow> bool" where
  "isLineTerminator c = (c = CHR 0x0A \<or> c = CHR 0x0D)"

fun atomMatches :: "atom \<Rightarrow> char \<Rightarrow> bool" where
  "atomMatches (Lit a) c = (c = a)"
| "atomMatches (NoneOf as) c = (c \<notin> set as)"
| "atomMatches Digit c = isDigit c"
| "atomMatches Dot c = (\<not> isLineTerminator c)"

text \<open>
  The backtracking matcher: every way of matching the items at the start of the input,
  each given by the rest of the input behind the match, in the order in which the engine
  tries them (a greedy \<open>+\<close> first takes one more character).
\<close>

fun rests :: "item list \<Rightarrow> string \<Rightarrow> string list" where
  "rests [] s = [s]"
| "rests (One a # r) [] = []"
| "rests (One a # r) (c # cs) = (if atomMatches a c then rests r cs else [])"
| "rests (Plus a # r) [] = []"
| "rests (Plus a # r) (c # cs) =
     (if atomMatches a c then rests (Plus a # r) cs @ rests r cs else [])"

definition literal :: "string \<Rightarrow> item list" where
  "literal s = map (\<lambda>c. One (Lit c)) s"

text \<open>A pattern between \<open>^\<close> and \<open>$\<close> (no flags): some way of matching uses up the input.\<close>

definition matchesWhole :: "item list \<Rightarrow> string \<Rightarrow> bool" where
  "matchesWhole p s = ([] \<in> set (rests p s))"

text \<open>The pattern \<open>/^(?:[^:\n]+):(?:\d+): warning: (?:.+)$/\<close>.\<close>

definition warningMessageRegex :: "item list" where
  "warningMessageRegex =
     [Plus (NoneOf [CHR '':'', CHR 0x0A])] @ literal '':'' @ [Plus Digit]
       @ literal '': warning: '' @ [Plus Dot]"

subsection \<open>Console output\<close>

text \<open>
  One constructor for each message the runner prints, carrying the values interpolated
  into the message:
  \<^item> \<open>Log_NotInstalled\<close>: \<open>console.log\<close>, "Doxygen is not installed. Downloading ...";
  \<^item> \<open>Error_DownloadFailed\<close>: \<open>console.error\<close>, "Failed to download Doxygen";
  \<^item> \<open>Error_NoXMLFiles folder\<close>: \<open>console.error\<close>, "No XML files found in folder.";
  \<^item> \<open>Log_FoundXMLFiles n\<close>: \<open>console.log\<close>, "Found n XML files.";
  \<^item> \<open>Log_File name\<close>: \<open>console.log\<close>, the name of one entry;
  \<^item> \<open>Log_CreatingConfig file\<close>: \<open>console.log\<close>, "Creating Doxygen config file file ...";
  \<^item> \<open>Log_RunningDoxygen\<close>: \<open>console.log\<close>, "Running Doxygen ...";
  \<^item> \<open>Log_GeneratingXML folder\<close>: \<open>console.log\<close>, "Generating XML documentation at folder ...";
  \<^item> \<open>Warn_Message line\<close>: \<open>console.warn\<close>, one line of the error text;
  \<^item> \<open>Error_MissingLibraries name\<close>: \<open>console.error\<close>,
    "Failed to run Doxygen due to missing libraries: name".
\<close>

datatype console =
    Log_NotInstalled
  | Error_DownloadFailed
  | Error_NoXMLFiles string
  | Log_FoundXMLFiles nat
  | Log_File string
  | Log_CreatingConfig string
  | Log_RunningDoxygen
  | Log_GeneratingXML string
  | Warn_Message string
  | Error_MissingLibraries string

subsection \<open>The diagnostic filter\<close>

text \<open>The pattern \<open>/\n  /\<close>: a line feed and two spaces.\<close>

definition continuation :: string where
  "continuation = [CHR 0x0A, CHR '' '', CHR '' '']"

text \<open>\<open>text.replace(/\n  /g, " ")\<close>.\<close>

definition meld :: "string \<Rightarrow> string" where
  "meld txt = replaceAll continuation '' '' txt"

text \<open>
  \<open>error.stderr.toString().replace(/\n  /g, " ").split("\n")\<close>: the lines of the error
  text after melding.
\<close>

definition errorMessages :: "string \<Rightarrow> string list" where
  "errorMessages txt = split CHR 0x0A (meld txt)"

text \<open>
  \<open>extractValidationMessages\<close>, given \<open>this.options.debug\<close> and the text of
  \<open>error.stderr\<close>: what it prints
  and what it returns.  \<open>message.match(regex)\<close> is an array (truthy) or \<open>null\<close>.
\<close>

definition extractValidationMessages :: "bool \<Rightarrow> string \<Rightarrow> console list \<times> string list" where
  "extractValidationMessages verbose txt =
     (let filteredMessages = filter (matchesWhole warningMessageRegex) (errorMessages txt);
          remainingMessages =
            filter (\<lambda>message. message \<notin> set filteredMessages \<and> message \<noteq> [])
              (errorMessages txt)
      in (if verbose then map Warn_Message remainingMessages else [], filteredMessages))"

subsection \<open>Options and the directive set\<close>

text \<open>
  \<open>this.options\<close>.  The access level is the text the caller gives; \<open>exclude\<close> may be
  undefined.
\<close>

record options =
  sourceFolder :: string
  doxygenVersion :: string
  outputXML :: bool
  xmlFolder :: string
  fileExtensions :: "string list"
  exclude :: "string option"
  accessLevel :: string
  debug :: bool
  doxygenConfigFile :: string

text \<open>
  The object \<open>doxyFileOptions\<close> built by \<open>prepare\<close>, as the list of its keys and values
  in the order of the source; a property is read with \<^const>\<open>map_of\<close>.
\<close>

definition doxyFileOptions :: "options \<Rightarrow> (string \<times> string) list" where
  "doxyFileOptions opts =
     [(''INPUT'', sourceFolder opts),
      (''RECURSIVE'', ''YES''),
      (''GENERATE_HTML'', ''NO''),
      (''GENERATE_LATEX'', ''NO''),
      (''GENERATE_XML'', if outputXML opts then ''YES'' else ''NO''),
      (''XML_OUTPUT'', xmlFolder opts),
      (''CASE_SENSE_NAMES'', ''NO''),
      (''FILE_PATTERNS'', join '' '' (fileExtensions opts)),
      (''EXCLUDE_PATTERNS'',
         case exclude opts of None \<Rightarrow> [] | Some e \<Rightarrow> if e \<noteq> [] then e else []),
      (''EXTRACT_PRIVATE'', if accessLevel opts = ''private'' then ''YES'' else ''NO''),
      (''EXTRACT_STATIC'', ''NO''),
      (''QUIET'', if debug opts then ''NO'' else ''YES''),
      (''WARN_NO_PARAMDOC'', ''YES''),
      (''WARN_AS_ERROR'', ''FAIL_ON_WARNINGS''),
      (''ENABLE_PREPROCESSING'', ''NO'')]"

subsection \<open>The file system\<close>

text \<open>
  The file system is a tree: a file with its text, or a directory with its entries.  An
  entry is found by its name with \<^const>\<open>map_of\<close>.  There are no links and no
  permissions.  The root of the tree is also the working directory.
\<close>

datatype node = File string | Dir "(string \<times> node) list"

type_synonym path = "string list"

fun lookup :: "node \<Rightarrow> path \<Rightarrow> node option" where
  "lookup n [] = Some n"
| "lookup (File c) (x # p) = None"
| "lookup (Dir es) (x # p) = (case map_of es x of None \<Rightarrow> None | Some n \<Rightarrow> lookup n p)"

text \<open>\<open>store p new fs\<close> puts \<open>new\<close> at the path \<open>p\<close> whose parent directory exists.\<close>

fun store :: "path \<Rightarrow> node \<Rightarrow> node \<Rightarrow> node" where
  "store [] new n = new"
| "store (x # p) new (File c) = File c"
| "store (x # p) new (Dir es) =
     (case map_of es x of
        None \<Rightarrow> if p = [] then Dir (AList.update x new es) else Dir es
      | Some n \<Rightarrow> Dir (AList.update x (store p new n) es))"

text \<open>\<open>erase p fs\<close> takes the entry at the path \<open>p\<close> out of its parent directory.\<close>

fun erase :: "path \<Rightarrow> node \<Rightarrow> node" where
  "erase [] n = n"
| "erase (x # p) (File c) = File c"
| "erase (x # p) (Dir es) =
     (if p = [] then Dir (AList.delete x es)
      else case map_of es x of
             None \<Rightarrow> Dir es
           | Some n \<Rightarrow> Dir (AList.update x (erase p n) es))"

text \<open>
  A path text is walked through the tree component by component, as the operating system
  does it.  Every component, also an empty one behind a last \<open>/\<close>, is read in a directory
  that exists: an empty component and \<open>.\<close> stay in it, \<open>..\<close> steps back to its parent, and
  a name steps to the entry of this name, which must exist.  \<open>walk fs p cs\<close> is the path
  of the entry reached from the directory at \<open>p\<close> with the components \<open>cs\<close>, if the walk
  succeeds.  The empty path text names nothing.
\<close>

fun walk :: "node \<Rightarrow> path \<Rightarrow> string list \<Rightarrow> path option" where
  "walk fs p [] = Some p"
| "walk fs p (c # cs) =
     (case lookup fs p of
        Some (Dir es) \<Rightarrow>
          if c = [] \<or> c = ''.'' then walk fs p cs
          else if c = ''..'' then walk fs (butlast p) cs
          else if lookup fs (p @ [c]) = None then None
          else walk fs (p @ [c]) cs
      | _ \<Rightarrow> None)"

definition realpath :: "node \<Rightarrow> string \<Rightarrow> path option" where
  "realpath fs s = (if s = [] then None else walk fs [] (split CHR ''/'' s))"

definition locate :: "node \<Rightarrow> string \<Rightarrow> node option" where
  "locate fs s = (case realpath fs s of None \<Rightarrow> None | Some p \<Rightarrow> lookup fs p)"

text \<open>
  The normal form of a path text, computed on the text alone.  It is where a walk ends
  when it succeeds; whether it succeeds is for the walk to say, and the functions of the
  file system below all go through the walk.
\<close>

definition step :: "path \<Rightarrow> string \<Rightarrow> path" where
  "step p c = (if c = [] \<or> c = ''.'' then p else if c = ''..'' then butlast p else p @ [c])"

definition resolve :: "string \<Rightarrow> path" where
  "resolve s = foldl step [] (split CHR ''/'' s)"

text \<open>
  What a call can throw: an error of the file system, or a \<open>TypeError\<close>.  \<open>OutOfFuel\<close>
  is not an outcome of the program: it marks a run of the model that has reached the bound
  on the depth of its recursion.
\<close>

datatype errno = ENOENT | ENOTDIR | EISDIR | ENOTEMPTY | EEXIST | EBUSY

datatype exn = FsError errno | TypeError | OutOfFuel

text \<open>The functions of the module \<open>fs\<close> that the program calls.\<close>

definition existsSync :: "node \<Rightarrow> string \<Rightarrow> bool" where
  "existsSync fs s = (locate fs s \<noteq> None)"

definition readdirSync :: "node \<Rightarrow> string \<Rightarrow> exn + string list" where
  "readdirSync fs s =
     (case locate fs s of
        None \<Rightarrow> Inl (FsError ENOENT)
      | Some (File c) \<Rightarrow> Inl (FsError ENOTDIR)
      | Some (Dir es) \<Rightarrow> Inr (map fst es))"

definition statSync :: "node \<Rightarrow> string \<Rightarrow> exn + node" where
  "statSync fs s = (case locate fs s of None \<Rightarrow> Inl (FsError ENOENT) | Some n \<Rightarrow> Inr n)"

fun isDirectory :: "node \<Rightarrow> bool" where
  "isDirectory (Dir es) = True"
| "isDirectory (File c) = False"

definition rmdirSync :: "node \<Rightarrow> string \<Rightarrow> exn + node" where
  "rmdirSync fs s =
     (case realpath fs s of
        None \<Rightarrow> Inl (FsError ENOENT)
      | Some p \<Rightarrow>
          (case lookup fs p of
             None \<Rightarrow> Inl (FsError ENOENT)
           | Some (File c) \<Rightarrow> Inl (FsError ENOTDIR)
           | Some (Dir es) \<Rightarrow>
               if es \<noteq> [] then Inl (FsError ENOTEMPTY)
               else if p = [] then Inl (FsError EBUSY)
               else Inr (erase p fs)))"

definition unlinkSync :: "node \<Rightarrow> string \<Rightarrow> exn + node" where
  "unlinkSync fs s =
     (case realpath fs s of
        None \<Rightarrow> Inl (FsError ENOENT)
      | Some p \<Rightarrow>
          (case lookup fs p of
             None \<Rightarrow> Inl (FsError ENOENT)
           | Some (Dir es) \<Rightarrow> Inl (FsError EISDIR)
           | Some (File c) \<Rightarrow> Inr (erase p fs)))"

text \<open>
  \<open>fs.mkdirSync(dir, { recursive: true })\<close>: the path is walked, and a name that is
  missing is made a directory on the way.  A file in the way ends the call with an
  exception; the directories made before it stay.
\<close>

fun mkdirs :: "string list \<Rightarrow> path \<Rightarrow> node \<Rightarrow> exn option \<times> node" where
  "mkdirs [] p fs = (None, fs)"
| "mkdirs (c # cs) p fs =
     (case lookup fs p of
        Some (Dir es) \<Rightarrow>
          if c = [] \<or> c = ''.'' then mkdirs cs p fs
          else if c = ''..'' then mkdirs cs (butlast p) fs
          else (case lookup fs (p @ [c]) of
                  None \<Rightarrow> mkdirs cs (p @ [c]) (store (p @ [c]) (Dir []) fs)
                | Some (Dir es') \<Rightarrow> mkdirs cs (p @ [c]) fs
                | Some (File t) \<Rightarrow> (Some (FsError (if cs = [] then EEXIST else ENOTDIR)), fs))
      | _ \<Rightarrow> (Some (FsError ENOTDIR), fs))"

definition mkdirSync :: "node \<Rightarrow> string \<Rightarrow> exn option \<times> node" where
  "mkdirSync fs s =
     (if s = [] then (Some (FsError ENOENT), fs) else mkdirs (split CHR ''/'' s) [] fs)"

text \<open>
  Writing a file: the directory of the path is walked and must exist, the last component
  is a name, and the name is not that of a directory.
\<close>

definition writeFileSync :: "node \<Rightarrow> string \<Rightarrow> string \<Rightarrow> exn + node" where
  "writeFileSync fs s txt =
     (if s = [] then Inl (FsError ENOENT)
      else case walk fs [] (butlast (split CHR ''/'' s)) of
             None \<Rightarrow> Inl (FsError ENOENT)
           | Some p \<Rightarrow>
               (case lookup fs p of
                  None \<Rightarrow> Inl (FsError ENOENT)
                | Some (File c) \<Rightarrow> Inl (FsError ENOTDIR)
                | Some (Dir es) \<Rightarrow>
                    if last (split CHR ''/'' s) = [] \<or> last (split CHR ''/'' s) = ''.''
                       \<or> last (split CHR ''/'' s) = ''..''
                    then Inl (FsError EISDIR)
                    else (case lookup fs (p @ [last (split CHR ''/'' s)]) of
                            Some (Dir es') \<Rightarrow> Inl (FsError EISDIR)
                          | _ \<Rightarrow> Inr (store (p @ [last (split CHR ''/'' s)]) (File txt) fs))))"

text \<open>
  The trees that are file systems: in every directory the names are distinct, and each is
  a name that a path text can reach.
\<close>

definition validName :: "string \<Rightarrow> bool" where
  "validName x = (x \<noteq> [] \<and> x \<noteq> ''.'' \<and> x \<noteq> ''..'' \<and> CHR ''/'' \<notin> set x)"

fun wellFormed :: "node \<Rightarrow> bool" where
  "wellFormed (File c) = True"
| "wellFormed (Dir es) =
     (distinct (map fst es) \<and> list_all validName (map fst es)
      \<and> list_all wellFormed (map snd es))"

subsection \<open>The directory helpers\<close>

text \<open>
  \<open>createDirectories\<close> and \<open>cleanDirectory\<close>, which the runner imports from
  \<open>helpers.js\<close> and which \<open>index.js\<close> defines, each returning what it throws, if anything,
  and the file system it leaves.  The path \<open>dir + "/" + file\<close> is written out at each of
  its uses.  The loop of \<open>cleanDirectory\<close> over the entries it has
  read is \<open>cleanFiles\<close>; the first argument bounds the depth of the recursion.
\<close>

fun createDirectories :: "string list \<Rightarrow> node \<Rightarrow> exn option \<times> node" where
  "createDirectories [] fs = (None, fs)"
| "createDirectories (dir # dirs) fs =
     (if \<not> existsSync fs dir then
        (case mkdirSync fs dir of
           (Some e, fs') \<Rightarrow> (Some e, fs')
         | (None, fs') \<Rightarrow> createDirectories dirs fs')
      else createDirectories dirs fs)"

fun cleanDirectoryF :: "nat \<Rightarrow> string \<Rightarrow> node \<Rightarrow> exn option \<times> node"
  and cleanFiles :: "nat \<Rightarrow> string \<Rightarrow> string list \<Rightarrow> node \<Rightarrow> exn option \<times> node" where
  "cleanDirectoryF 0 dir fs = (Some OutOfFuel, fs)"
| "cleanDirectoryF (Suc n) dir fs =
     (if existsSync fs dir then
        (case readdirSync fs dir of
           Inl e \<Rightarrow> (Some e, fs)
         | Inr files \<Rightarrow> cleanFiles n dir files fs)
      else (None, fs))"
| "cleanFiles n dir [] fs = (None, fs)"
| "cleanFiles n dir (file # files) fs =
     (case statSync fs (dir @ ''/'' @ file) of
        Inl e \<Rightarrow> (Some e, fs)
      | Inr stat \<Rightarrow>
          if isDirectory stat then
            (case cleanDirectoryF n (dir @ ''/'' @ file) fs of
               (Some e, fs1) \<Rightarrow> (Some e, fs1)
             | (None, fs1) \<Rightarrow>
                 (case rmdirSync fs1 (dir @ ''/'' @ file) of
                    Inl e \<Rightarrow> (Some e, fs1)
                  | Inr fs2 \<Rightarrow> cleanFiles n dir files fs2))
          else
            (case unlinkSync fs (dir @ ''/'' @ file) of
               Inl e \<Rightarrow> (Some e, fs)
             | Inr fs2 \<Rightarrow> cleanFiles n dir files fs2))"

text \<open>The bound is the size of the tree, which no directory in it exceeds in depth.\<close>

definition cleanDirectory :: "string \<Rightarrow> node \<Rightarrow> exn option \<times> node" where
  "cleanDirectory dir fs = cleanDirectoryF (Suc (size fs)) dir fs"

subsection \<open>The world of a run\<close>

text \<open>
  The state that a run reads and changes: the file system, what has been printed so far,
  and the calls made so far to the functions of the package \<open>doxygen\<close> that act on the
  world.
\<close>

datatype call =
    Call_downloadVersion string
  | Call_createConfig "(string \<times> string) list" string
  | Call_run string string

record world =
  disk :: node
  printed :: "console list"
  called :: "call list"

text \<open>The error that \<open>doxygen.run\<close> throws when the tool fails.\<close>

record exec_error =
  message :: string
  stderr :: string

text \<open>
  The package \<open>doxygen\<close> is not part of the program; its behaviour is a parameter:
  whether a version is installed, whether a download succeeds and what it leaves on the
  disk, the text that \<open>createConfig\<close> writes for a directive set, and what running the
  tool with a configuration file and a version throws and leaves on the disk.
\<close>

record env =
  isDoxygenExecutableInstalled :: "string \<Rightarrow> node \<Rightarrow> bool"
  downloadVersion :: "string \<Rightarrow> node \<Rightarrow> bool \<times> node"
  configText :: "(string \<times> string) list \<Rightarrow> string"
  runTool :: "string \<Rightarrow> string \<Rightarrow> node \<Rightarrow> exec_error option \<times> node"

text \<open>
  How a method ends: it returns, the process exits with a status, or an exception leaves
  the method.
\<close>

datatype 'a completion = Normal 'a | Exit nat | Throw exn

definition emit :: "console \<Rightarrow> world \<Rightarrow> world" where
  "emit m w = w\<lparr>printed := printed w @ [m]\<rparr>"

definition record_call :: "call \<Rightarrow> world \<Rightarrow> world" where
  "record_call c w = w\<lparr>called := called w @ [c]\<rparr>"

text \<open>A call to the package that has left the disk \<open>d\<close>.\<close>

definition external :: "call \<Rightarrow> node \<Rightarrow> world \<Rightarrow> world" where
  "external c d w = record_call c (w\<lparr>disk := d\<rparr>)"

text \<open>A helper that acts on the disk, run in the world.\<close>

definition on_disk :: "(node \<Rightarrow> exn option \<times> node) \<Rightarrow> world \<Rightarrow> unit completion \<times> world" where
  "on_disk f w =
     (case f (disk w) of
        (Some e, d) \<Rightarrow> (Throw e, w\<lparr>disk := d\<rparr>)
      | (None, d) \<Rightarrow> (Normal (), w\<lparr>disk := d\<rparr>))"

text \<open>
  Modelled from the spec: \<open>doxygen.createConfig(doxyFileOptions, file)\<close> belongs to the
  package \<open>doxygen\<close>, whose source is not part of the program.  The spec says that the
  directive set is persisted at the path of the configuration file, written once in a
  run; the model writes the file at this path with \<open>writeFileSync\<close>.
\<close>

definition createConfig ::
  "env \<Rightarrow> (string \<times> string) list \<Rightarrow> string \<Rightarrow> world \<Rightarrow> unit completion \<times> world" where
  "createConfig e cfg file w =
     (case writeFileSync (disk w) file (configText e cfg) of
        Inl x \<Rightarrow> (Throw x, record_call (Call_createConfig cfg file) w)
      | Inr d \<Rightarrow> (Normal (), external (Call_createConfig cfg file) d w))"

subsection \<open>The methods of the runner\<close>

definition checkInstallation :: "env \<Rightarrow> options \<Rightarrow> world \<Rightarrow> unit completion \<times> world" where
  "checkInstallation e opts w =
     (if \<not> isDoxygenExecutableInstalled e (doxygenVersion opts) (disk w) then
        (case downloadVersion e (doxygenVersion opts) (disk w) of
           (success, d) \<Rightarrow>
             (if \<not> success
              then (Exit 1,
                    emit Error_DownloadFailed
                      (external (Call_downloadVersion (doxygenVersion opts)) d
                         (emit Log_NotInstalled w)))
              else (Normal (),
                    external (Call_downloadVersion (doxygenVersion opts)) d
                      (emit Log_NotInstalled w))))
      else (Normal (), w))"

definition checkXMLOutput :: "options \<Rightarrow> world \<Rightarrow> unit completion \<times> world" where
  "checkXMLOutput opts w =
     (case readdirSync (disk w) (xmlFolder opts) of
        Inl x \<Rightarrow> (Throw x, w)
      | Inr xmlFiles \<Rightarrow>
          if length xmlFiles = 0 then (Exit 1, emit (Error_NoXMLFiles (xmlFolder opts)) w)
          else if debug opts
          then (Normal (),
                w\<lparr>printed := printed w @ Log_FoundXMLFiles (length xmlFiles) # map Log_File xmlFiles\<rparr>)
          else (Normal (), w))"

definition prepare :: "env \<Rightarrow> options \<Rightarrow> world \<Rightarrow> unit completion \<times> world" where
  "prepare e opts w =
     (case createConfig e (doxyFileOptions opts) (doxygenConfigFile opts)
             (if debug opts then emit (Log_CreatingConfig (doxygenConfigFile opts)) w else w) of
        (Normal u, w1) \<Rightarrow>
          if map_of (doxyFileOptions opts) ''GENERATE_XML'' = Some ''YES'' then
            (case on_disk (cleanDirectory (xmlFolder opts))
                    (if debug opts then emit Log_RunningDoxygen w1 else w1) of
               (Normal u, w2) \<Rightarrow>
                 (case on_disk (createDirectories [xmlFolder opts]) w2 of
                    (Normal u, w3) \<Rightarrow> (Normal (), emit (Log_GeneratingXML (xmlFolder opts)) w3)
                  | (Exit n, w3) \<Rightarrow> (Exit n, w3)
                  | (Throw x, w3) \<Rightarrow> (Throw x, w3))
             | (Exit n, w2) \<Rightarrow> (Exit n, w2)
             | (Throw x, w2) \<Rightarrow> (Throw x, w2))
          else (Normal (), if debug opts then emit Log_RunningDoxygen w1 else w1)
      | (Exit n, w1) \<Rightarrow> (Exit n, w1)
      | (Throw x, w1) \<Rightarrow> (Throw x, w1))"

text \<open>
  The pattern \<open>new RegExp(`${missingLibsErrorMessage} (.+)`)\<close> is a literal text and one
  group.  \<open>matchAt pre grp s\<close> tries a pattern \<open>pre(grp)\<close> at the start of \<open>s\<close> and gives
  the array of the match, the matched text and the text of the group; \<open>matchFirst\<close> is
  \<open>s.match(...)\<close>, which tries every start from the left and gives \<open>null\<close> when all fail.
\<close>

definition missingLibsErrorMessage :: string where
  "missingLibsErrorMessage = ''error while loading shared libraries:''"

definition matchAt :: "item list \<Rightarrow> item list \<Rightarrow> string \<Rightarrow> string list option" where
  "matchAt pre grp s =
     (case concat (map (\<lambda>r1. map (Pair r1) (rests grp r1)) (rests pre s)) of
        [] \<Rightarrow> None
      | (r1, r2) # others \<Rightarrow>
          Some [take (length s - length r2) s, take (length r1 - length r2) r1])"

fun matchFirst :: "item list \<Rightarrow> item list \<Rightarrow> string \<Rightarrow> string list option" where
  "matchFirst pre grp [] = matchAt pre grp []"
| "matchFirst pre grp (c # cs) =
     (case matchAt pre grp (c # cs) of
        Some m \<Rightarrow> Some m
      | None \<Rightarrow> matchFirst pre grp cs)"

text \<open>
  What \<open>run\<close> does once the tool has run and the messages are known: the check of the
  XML output, if asked for, and the return.
\<close>

definition finish :: "options \<Rightarrow> string list \<Rightarrow> world \<Rightarrow> string list completion \<times> world" where
  "finish opts validationMessages w =
     (if outputXML opts then
        (case checkXMLOutput opts w of
           (Normal u, w') \<Rightarrow> (Normal validationMessages, w')
         | (Exit n, w') \<Rightarrow> (Exit n, w')
         | (Throw x, w') \<Rightarrow> (Throw x, w'))
      else (Normal validationMessages, w))"

text \<open>
  The handler of the \<open>catch\<close> block.  When nothing matches, \<open>matches\<close> is \<open>null\<close> and
  reading \<open>matches.length\<close> throws a \<open>TypeError\<close>.
\<close>

definition handleError :: "options \<Rightarrow> exec_error \<Rightarrow> world \<Rightarrow> string list completion \<times> world" where
  "handleError opts error w =
     (if includes_str (message error) missingLibsErrorMessage then
        (case matchFirst (literal (missingLibsErrorMessage @ '' '')) [Plus Dot] (message error) of
           None \<Rightarrow> (Throw TypeError, w)
         | Some matches \<Rightarrow>
             (Exit 1,
              emit (Error_MissingLibraries
                      (if length matches > 1 then matches ! 1 else ''unknown'')) w))
      else
        (case extractValidationMessages (debug opts) (stderr error) of
           (out, validationMessages) \<Rightarrow>
             finish opts validationMessages (w\<lparr>printed := printed w @ out\<rparr>)))"

definition run :: "env \<Rightarrow> options \<Rightarrow> world \<Rightarrow> string list completion \<times> world" where
  "run e opts w =
     (case checkInstallation e opts w of
        (Normal u, w1) \<Rightarrow>
          (case prepare e opts w1 of
             (Normal u, w2) \<Rightarrow>
               (case runTool e (doxygenConfigFile opts) (doxygenVersion opts) (disk w2) of
                  (None, d) \<Rightarrow>
                    finish opts []
                      (external (Call_run (doxygenConfigFile opts) (doxygenVersion opts)) d w2)
                | (Some error, d) \<Rightarrow>
                    handleError opts error
                      (external (Call_run (doxygenConfigFile opts) (doxygenVersion opts)) d w2))
           | (Exit n, w2) \<Rightarrow> (Exit n, w2)
           | (Throw x, w2) \<Rightarrow> (Throw x, w2))
      | (Exit n, w1) \<Rightarrow> (Exit n, w1)
      | (Throw x, w1) \<Rightarrow> (Throw x, w1))"

subsection \<open>Example inputs\<close>

text \<open>
  A run that asks for XML output into a folder that holds the files of an earlier run, on
  a machine where the tool is installed and runs without a complaint.
\<close>

definition example_options :: options where
  "example_options =
     \<lparr>sourceFolder = ''./src'', doxygenVersion = ''1.9.6'', outputXML = True,
      xmlFolder = ''./build/xml/'', fileExtensions = [''.h''], exclude = None,
      accessLevel = ''public'', debug = False, doxygenConfigFile = ''./doxygen.config''\<rparr>"

definition example_disk :: node where
  "example_disk =
     Dir [(''src'', Dir [(''a.h'', File ''int a();'')]),
          (''build'', Dir [(''xml'', Dir [(''old.xml'', File ''stale''),
                                          (''sub'', Dir [(''deep.xml'', File ''stale'')])])])]"

definition example_env :: env where
  "example_env =
     \<lparr>isDoxygenExecutableInstalled = (\<lambda>version d. True),
      downloadVersion = (\<lambda>version d. (True, d)),
      configText = (\<lambda>cfg. ''# Doxyfile''),
      runTool = (\<lambda>file version d.
         (None, store [''build'', ''xml'', ''index.xml''] (File ''<doxygenindex/>'') d))\<rparr>"

definition example_world :: world where
  "example_world = \<lparr>disk = example_disk, printed = [], called = []\<rparr>"

text \<open>The same run with a path of the XML folder that steps back over a missing directory.\<close>

definition stepping_back_options :: options where
  "stepping_back_options = example_options\<lparr>xmlFolder := ''nope/../build/xml''\<rparr>"

text \<open>The same run without XML output, and one whose configuration file lies in the folder.\<close>

definition plain_options :: options where
  "plain_options = example_options\<lparr>outputXML := False\<rparr>"



text \<open>A machine without the tool and without a network.\<close>

definition offline_env :: env where
  "offline_env =
     example_env\<lparr>isDoxygenExecutableInstalled := (\<lambda>version d. False),
       downloadVersion := (\<lambda>version d. (False, d))\<rparr>"

text \<open>A machine where the tool fails with the marker text and nothing behind it.\<close>

definition failing_error :: exec_error where
  "failing_error =
     \<lparr>message = ''doxygen: error while loading shared libraries:'', stderr = []\<rparr>"

definition failing_env :: env where
  "failing_env = example_env\<lparr>runTool := (\<lambda>file version d. (Some failing_error, d))\<rparr>"

section \<open>Properties\<close>

subsection \<open>Strings\<close>

text \<open>\<open>includes_str\<close> is the occurrence of a contiguous block.\<close>

lemma includes_str_iff: "includes_str s t \<longleftrightarrow> (\<exists>a b. s = a @ t @ b)"
proof (induction s)
  case Nil
  then show ?case by auto
next
  case (Cons c cs)
  show ?case
  proof
    assume "includes_str (c # cs) t"
    then consider "prefix t (c # cs)" | "includes_str cs t" by auto
    then show "\<exists>a b. c # cs = a @ t @ b"
    proof cases
      case 1
      then obtain b where "c # cs = t @ b" by (auto simp: prefix_def)
      then have "c # cs = [] @ t @ b" by simp
      then show ?thesis by blast
    next
      case 2
      with Cons.IH obtain a b where "cs = a @ t @ b" by blast
      then have "c # cs = (c # a) @ t @ b" by simp
      then show ?thesis by blast
    qed
  next
    assume "\<exists>a b. c # cs = a @ t @ b"
    then obtain a b where ab: "c # cs = a @ t @ b" by blast
    show "includes_str (c # cs) t"
    proof (cases a)
      case Nil
      with ab have "prefix t (c # cs)" by (simp add: prefix_def)
      then show ?thesis by simp
    next
      case (Cons d a')
      with ab have "cs = a' @ t @ b" by simp
      with Cons.IH have "includes_str cs t" by blast
      then show ?thesis by simp
    qed
  qed
qed

lemma prefix_continuation_append:
  "prefix continuation ((c # a) @ continuation @ b) \<longleftrightarrow> prefix continuation (c # a)"
  unfolding continuation_def
  by (cases a; cases "tl a") (auto simp: prefix_def)

lemma meld_append:
  "meld (a @ continuation @ b) = meld a @ '' '' @ meld b"
  unfolding meld_def
proof (induction continuation "'' ''" a rule: replaceAll.induct)
  case 1
  show ?case by (simp add: continuation_def)
next
  case (2 c cs)
  show ?case
  proof (cases "prefix continuation (c # cs)")
    case True
    then obtain r where r: "c # cs = continuation @ r" by (auto simp: prefix_def)
    then have cs: "cs = [CHR '' '', CHR '' ''] @ r" and c: "c = CHR 0x0A" by (auto simp: continuation_def)
    have d: "drop (length continuation - 1) cs = r" using cs by (simp add: continuation_def)
    have ne: "continuation \<noteq> []" by (simp add: continuation_def)
    from 2(1)[OF conjI[OF ne True]] d
    have IH: "replaceAll continuation '' '' (r @ continuation @ b) =
        replaceAll continuation '' '' r @ '' '' @ replaceAll continuation '' '' b" by simp
    have "replaceAll continuation '' '' ((c # cs) @ continuation @ b) =
          '' '' @ replaceAll continuation '' '' (r @ continuation @ b)"
      using cs c by (simp add: continuation_def)
    moreover have "replaceAll continuation '' '' (c # cs) = '' '' @ replaceAll continuation '' '' r"
      using cs c by (simp add: continuation_def)
    ultimately show ?thesis using IH by simp
  next
    case False
    then have F2: "\<not> prefix continuation ((c # cs) @ continuation @ b)"
      by (simp only: prefix_continuation_append not_False_eq_True)
    have "\<not> (continuation \<noteq> [] \<and> prefix continuation (c # cs))" using False by simp
    from 2(2)[OF this]
    have IH: "replaceAll continuation '' '' (cs @ continuation @ b) =
        replaceAll continuation '' '' cs @ '' '' @ replaceAll continuation '' '' b" .
    show ?thesis using False F2 IH by simp
  qed
qed

lemma meld_id: "\<not> includes_str s continuation \<Longrightarrow> meld s = s"
  unfolding meld_def by (induction s) auto


lemma split_not_Nil: "split sep s \<noteq> []"
  by (induction s) (auto split: list.splits)

lemma split_append:
  "split sep (x @ y) =
     butlast (split sep x) @ [last (split sep x) @ hd (split sep y)] @ tl (split sep y)"
proof (induction x)
  case Nil
  show ?case using split_not_Nil[of sep y] by (cases "split sep y") auto
next
  case (Cons c x)
  show ?case
  proof (cases "c = sep")
    case True
    then show ?thesis using Cons split_not_Nil[of sep x] by simp
  next
    case False
    obtain l ls where x: "split sep x = l # ls"
      using split_not_Nil[of sep x] by (cases "split sep x") auto
    show ?thesis
    proof (cases ls)
      case Nil
      with x False Cons show ?thesis by simp
    next
      case (Cons l' ls')
      with x False Cons.IH show ?thesis by simp
    qed
  qed
qed

lemma split_no_sep: "sep \<notin> set s \<Longrightarrow> split sep s = [s]"
  by (induction s) auto

lemma split_append_sep: "split sep (x @ sep # y) = split sep x @ split sep y"
proof (induction x)
  case Nil
  show ?case by simp
next
  case (Cons c x)
  show ?case
  proof (cases "c = sep")
    case True
    then show ?thesis using Cons by simp
  next
    case False
    obtain l ls where x: "split sep x = l # ls"
      using split_not_Nil[of sep x] by (cases "split sep x") auto
    with False Cons show ?thesis by simp
  qed
qed

subsection \<open>Regular expressions\<close>

text \<open>
  What the matcher accepts: a \<open>+\<close> takes a non-empty block of characters of its atom, a
  literal text takes itself.  The warning pattern therefore accepts the lines made of a
  non-empty locator without colon and line feed, a colon, a non-empty block of digits, the
  text \<open>: warning: \<close> and a non-empty rest without line terminator.
\<close>

lemma rests_Plus:
  "t \<in> set (rests (Plus a # r) s) \<longleftrightarrow>
     (\<exists>u v. s = u @ v \<and> u \<noteq> [] \<and> (\<forall>c\<in>set u. atomMatches a c) \<and> t \<in> set (rests r v))"
proof (induction s)
  case Nil
  show ?case by simp
next
  case (Cons c cs)
  show ?case
  proof
    assume "t \<in> set (rests (Plus a # r) (c # cs))"
    then have m: "atomMatches a c"
      and "t \<in> set (rests (Plus a # r) cs) \<or> t \<in> set (rests r cs)"
      by (auto split: if_splits)
    then show "\<exists>u v. c # cs = u @ v \<and> u \<noteq> [] \<and> (\<forall>c\<in>set u. atomMatches a c) \<and> t \<in> set (rests r v)"
    proof (elim disjE)
      assume "t \<in> set (rests (Plus a # r) cs)"
      with Cons.IH obtain u v where "cs = u @ v" "\<forall>c\<in>set u. atomMatches a c" "t \<in> set (rests r v)"
        by blast
      with m have "c # cs = (c # u) @ v \<and> c # u \<noteq> [] \<and> (\<forall>c\<in>set (c # u). atomMatches a c)
          \<and> t \<in> set (rests r v)" by simp
      then show ?thesis by blast
    next
      assume "t \<in> set (rests r cs)"
      with m have "c # cs = [c] @ cs \<and> [c] \<noteq> [] \<and> (\<forall>c\<in>set [c]. atomMatches a c)
          \<and> t \<in> set (rests r cs)" by simp
      then show ?thesis by blast
    qed
  next
    assume "\<exists>u v. c # cs = u @ v \<and> u \<noteq> [] \<and> (\<forall>c\<in>set u. atomMatches a c) \<and> t \<in> set (rests r v)"
    then obtain u v where uv: "c # cs = u @ v" "u \<noteq> []" "\<forall>c\<in>set u. atomMatches a c"
      "t \<in> set (rests r v)" by blast
    then obtain u' where u: "u = c # u'" and cs: "cs = u' @ v" by (cases u) auto
    with uv have m: "atomMatches a c" by simp
    show "t \<in> set (rests (Plus a # r) (c # cs))"
    proof (cases "u' = []")
      case True
      with cs uv(4) m show ?thesis by simp
    next
      case False
      with uv u cs have "\<exists>u v. cs = u @ v \<and> u \<noteq> [] \<and> (\<forall>c\<in>set u. atomMatches a c)
          \<and> t \<in> set (rests r v)" by auto
      with Cons.IH m show ?thesis by simp
    qed
  qed
qed

lemma rests_literal: "rests (literal w @ r) s = (if prefix w s then rests r (drop (length w) s) else [])"
proof (induction w arbitrary: s)
  case Nil
  show ?case by (simp add: literal_def)
next
  case (Cons a w)
  have l: "literal (a # w) = One (Lit a) # literal w" by (simp add: literal_def)
  show ?case by (cases s) (simp_all add: l Cons.IH)
qed

lemma rests_literal_mem:
  "t \<in> set (rests (literal w @ r) s) \<longleftrightarrow> (\<exists>v. s = w @ v \<and> t \<in> set (rests r v))"
proof
  assume "t \<in> set (rests (literal w @ r) s)"
  then have "prefix w s" and "t \<in> set (rests r (drop (length w) s))"
    by (auto simp: rests_literal split: if_splits)
  moreover from \<open>prefix w s\<close> have "s = w @ drop (length w) s"
    by (auto simp: prefix_def)
  ultimately show "\<exists>v. s = w @ v \<and> t \<in> set (rests r v)" by blast
next
  assume "\<exists>v. s = w @ v \<and> t \<in> set (rests r v)"
  then show "t \<in> set (rests (literal w @ r) s)"
    by (auto simp: rests_literal)
qed

lemma rests_Plus_end:
  "[] \<in> set (rests [Plus a] v) \<longleftrightarrow> v \<noteq> [] \<and> (\<forall>c\<in>set v. atomMatches a c)"
  by (auto simp: rests_Plus)

lemma pattern_shape:
  "[] \<in> set (rests (Plus a # literal w1 @ Plus b # literal w2 @ [Plus c]) s) \<longleftrightarrow>
     (\<exists>x y z. s = x @ w1 @ y @ w2 @ z
        \<and> x \<noteq> [] \<and> (\<forall>ch\<in>set x. atomMatches a ch)
        \<and> y \<noteq> [] \<and> (\<forall>ch\<in>set y. atomMatches b ch)
        \<and> z \<noteq> [] \<and> (\<forall>ch\<in>set z. atomMatches c ch))"
proof -
  have "[] \<in> set (rests (Plus a # literal w1 @ Plus b # literal w2 @ [Plus c]) s) \<longleftrightarrow>
      (\<exists>x v1. s = x @ v1 \<and> x \<noteq> [] \<and> (\<forall>ch\<in>set x. atomMatches a ch)
        \<and> (\<exists>v2. v1 = w1 @ v2
        \<and> (\<exists>y v3. v2 = y @ v3 \<and> y \<noteq> [] \<and> (\<forall>ch\<in>set y. atomMatches b ch)
        \<and> (\<exists>z. v3 = w2 @ z \<and> z \<noteq> [] \<and> (\<forall>ch\<in>set z. atomMatches c ch)))))"
    by (simp only: rests_Plus[where r = "literal w1 @ Plus b # literal w2 @ [Plus c]"]
        rests_Plus[where r = "literal w2 @ [Plus c]"] rests_literal_mem rests_Plus_end)
  also have "\<dots> \<longleftrightarrow> (\<exists>x y z. s = x @ w1 @ y @ w2 @ z
        \<and> x \<noteq> [] \<and> (\<forall>ch\<in>set x. atomMatches a ch)
        \<and> y \<noteq> [] \<and> (\<forall>ch\<in>set y. atomMatches b ch)
        \<and> z \<noteq> [] \<and> (\<forall>ch\<in>set z. atomMatches c ch))"
    by blast
  finally show ?thesis .
qed

lemma warning_pattern:
  "matchesWhole warningMessageRegex line \<longleftrightarrow>
     (\<exists>locator digits rest.
        line = locator @ '':'' @ digits @ '': warning: '' @ rest
        \<and> locator \<noteq> [] \<and> (\<forall>c\<in>set locator. c \<noteq> CHR '':'' \<and> c \<noteq> CHR 0x0A)
        \<and> digits \<noteq> [] \<and> (\<forall>c\<in>set digits. isDigit c)
        \<and> rest \<noteq> [] \<and> (\<forall>c\<in>set rest. \<not> isLineTerminator c))"
proof -
  have "matchesWhole warningMessageRegex line \<longleftrightarrow>
     [] \<in> set (rests (Plus (NoneOf [CHR '':'', CHR 0x0A]) #
                  literal '':'' @ Plus Digit # literal '': warning: '' @ [Plus Dot]) line)"
    by (simp add: matchesWhole_def warningMessageRegex_def)
  then show ?thesis
    by (simp only: pattern_shape atomMatches.simps) simp
qed

subsection \<open>The diagnostic filter\<close>

lemma errorMessages_continuation:
  "errorMessages (a @ continuation @ b) =
     butlast (errorMessages a) @ [last (errorMessages a) @ '' '' @ hd (errorMessages b)]
       @ tl (errorMessages b)"
proof -
  obtain l ls where b: "split CHR 0x0A (meld b) = l # ls"
    using split_not_Nil[of "CHR 0x0A" "meld b"] by (cases "split CHR 0x0A (meld b)") auto
  have "split CHR 0x0A ('' '' @ meld b) = ('' '' @ l) # ls"
    using b by simp
  then show ?thesis
    unfolding errorMessages_def meld_append
    using b split_append[of "CHR 0x0A" "meld a" "'' '' @ meld b"] by simp
qed

text \<open>
  Claim C2, as amended.  Melding replaces each line feed that is directly followed by two
  spaces, together with these two spaces, by one space, whatever comes behind the two
  spaces: the text before the occurrence and the text behind it are melded on their own.
  A text in which no line feed is followed by two spaces is returned as it is.  The last
  line of the text before the occurrence and the first line of the text behind it become
  one message, joined by the space.
\<close>

theorem meld_continuation:
  "meld (a @ continuation @ b) = meld a @ '' '' @ meld b
   \<and> (\<not> includes_str s continuation \<longrightarrow> meld s = s)
   \<and> errorMessages (a @ continuation @ b) =
       butlast (errorMessages a) @ [last (errorMessages a) @ '' '' @ hd (errorMessages b)]
         @ tl (errorMessages b)"
  using meld_append meld_id errorMessages_continuation by blast

theorem meld_continuation_witness:
  "meld (''x.h:1: warning: p'' @ continuation @ ''q'') = ''x.h:1: warning: p q''
   \<and> \<not> includes_str [CHR ''p'', CHR 0x0A, CHR '' '', CHR ''q''] continuation
   \<and> meld [CHR ''p'', CHR 0x0A, CHR '' '', CHR ''q''] = [CHR ''p'', CHR 0x0A, CHR '' '', CHR ''q'']
   \<and> errorMessages (''x.h:1: warning: p'' @ continuation @ ''q'') = [''x.h:1: warning: p q'']"
proof -
  have n: "\<not> includes_str [CHR ''p'', CHR 0x0A, CHR '' '', CHR ''q''] continuation"
    by (simp add: continuation_def)
  have m: "meld ''x.h:1: warning: p'' = ''x.h:1: warning: p''" "meld ''q'' = ''q''"
    by (simp_all add: meld_def continuation_def)
  have e: "errorMessages ''x.h:1: warning: p'' = [''x.h:1: warning: p'']" "errorMessages ''q'' = [''q'']"
    by (simp_all add: errorMessages_def m)
  from meld_continuation[of "''x.h:1: warning: p''" "''q''" "[CHR ''p'', CHR 0x0A, CHR '' '', CHR ''q'']"]
  show ?thesis using n m e by simp
qed

text \<open>
  Claim C2 as it is written fails: a line feed followed by three spaces is not left
  untouched.  The line feed and two of the spaces become one space, and the two lines
  become one message.
\<close>

theorem meld_three_spaces_counterexample:
  "meld [CHR ''a'', CHR 0x0A, CHR '' '', CHR '' '', CHR '' '', CHR ''b'']
     \<noteq> [CHR ''a'', CHR 0x0A, CHR '' '', CHR '' '', CHR '' '', CHR ''b'']
   \<and> meld [CHR ''a'', CHR 0x0A, CHR '' '', CHR '' '', CHR '' '', CHR ''b''] = ''a  b''
   \<and> errorMessages [CHR ''a'', CHR 0x0A, CHR '' '', CHR '' '', CHR '' '', CHR ''b''] = [''a  b'']"
  by (simp add: errorMessages_def meld_def continuation_def)

text \<open>
  Claim C3.  Filtering the error text of the example returns the two warnings, the first
  one melded with its continuation line, in this order; the line of noise is not returned.
  This holds with and without the debug option.
\<close>

theorem filter_example:
  "snd (extractValidationMessages verbose
     ''a.h:10: warning: Parameter 'x' not documented\<newline>  (see declaration)\<newline>b.h:20: warning: Undocumented return value\<newline>Random noise line'')
   = [''a.h:10: warning: Parameter 'x' not documented (see declaration)'',
      ''b.h:20: warning: Undocumented return value'']
   \<and> ''Random noise line'' \<notin> set (snd (extractValidationMessages verbose
     ''a.h:10: warning: Parameter 'x' not documented\<newline>  (see declaration)\<newline>b.h:20: warning: Undocumented return value\<newline>Random noise line''))"
proof -
  have lines: "errorMessages
     ''a.h:10: warning: Parameter 'x' not documented\<newline>  (see declaration)\<newline>b.h:20: warning: Undocumented return value\<newline>Random noise line''
     = [''a.h:10: warning: Parameter 'x' not documented (see declaration)'',
        ''b.h:20: warning: Undocumented return value'', ''Random noise line'']"
    by (simp add: errorMessages_def meld_def continuation_def)
  have first: "matchesWhole warningMessageRegex
      ''a.h:10: warning: Parameter 'x' not documented (see declaration)''"
    by (simp add: warningMessageRegex_def matchesWhole_def literal_def isDigit_def
        isLineTerminator_def)
  have second: "matchesWhole warningMessageRegex ''b.h:20: warning: Undocumented return value''"
    by (simp add: warningMessageRegex_def matchesWhole_def literal_def isDigit_def
        isLineTerminator_def)
  have third: "\<not> matchesWhole warningMessageRegex ''Random noise line''"
    by (simp add: warningMessageRegex_def matchesWhole_def literal_def isDigit_def
        isLineTerminator_def)
  show ?thesis
    by (simp add: extractValidationMessages_def Let_def lines first second third)
qed

text \<open>
  Claim C4.  The messages returned are the lines of the melded text that match the
  warning pattern: they form a subsequence of these lines, so they come in the order of
  the text, and a matching line is returned as many times as it occurs among the lines;
  a line that does not match is not returned.
\<close>

theorem filter_order_multiplicity:
  "snd (extractValidationMessages verbose txt)
     = filter (matchesWhole warningMessageRegex) (errorMessages txt)
   \<and> subseq (snd (extractValidationMessages verbose txt)) (errorMessages txt)
   \<and> count_list (snd (extractValidationMessages verbose txt)) line
     = (if matchesWhole warningMessageRegex line then count_list (errorMessages txt) line else 0)"
proof -
  have c: "count_list (filter P xs) x = (if P x then count_list xs x else 0)" for P and xs :: "string list" and x
    by (induction xs) auto
  show ?thesis
    by (simp add: extractValidationMessages_def Let_def c)
qed

text \<open>
  Claim C5.  The messages returned with the debug option are those returned without it.
  Without the option nothing is printed; with it, one warning is printed for each line
  that is not empty and does not match the pattern.
\<close>

theorem filter_debug_independent:
  "snd (extractValidationMessages True txt) = snd (extractValidationMessages False txt)
   \<and> fst (extractValidationMessages False txt) = []
   \<and> fst (extractValidationMessages True txt)
     = map Warn_Message
         (filter (\<lambda>line. line \<noteq> [] \<and> \<not> matchesWhole warningMessageRegex line) (errorMessages txt))"
proof -
  have "filter (\<lambda>m. m \<notin> set (filter P xs) \<and> m \<noteq> []) xs = filter (\<lambda>l. l \<noteq> [] \<and> \<not> P l) xs"
    for P and xs :: "string list"
    by (rule filter_cong) auto
  then show ?thesis
    by (simp add: extractValidationMessages_def Let_def)
qed

subsection \<open>The file system\<close>

text \<open>The components of a path text, and the names in its normal form.\<close>

lemma split_parts_no_sep: "c \<in> set (split sep s) \<Longrightarrow> sep \<notin> set c"
proof (induction s arbitrary: c)
  case Nil
  then show ?case by simp
next
  case (Cons a s)
  obtain l ls where x: "split sep s = l # ls"
    using split_not_Nil[of sep s] by (cases "split sep s") auto
  show ?case
  proof (cases "a = sep")
    case True
    with Cons show ?thesis by auto
  next
    case False
    with Cons.prems x have "c = a # l \<or> c \<in> set ls" by simp
    then show ?thesis
    proof
      assume "c = a # l"
      moreover have "sep \<notin> set l" using Cons.IH[of l] x by simp
      ultimately show ?thesis using False by auto
    next
      assume "c \<in> set ls"
      then show ?thesis using Cons.IH[of c] x by simp
    qed
  qed
qed

lemma step_valid:
  "list_all validName p \<Longrightarrow> CHR ''/'' \<notin> set c \<Longrightarrow> list_all validName (step p c)"
  by (auto simp: step_def validName_def list_all_iff dest: in_set_butlastD)

lemma foldl_step_valid:
  "list_all validName p \<Longrightarrow> \<forall>c\<in>set cs. CHR ''/'' \<notin> set c \<Longrightarrow>
   list_all validName (foldl step p cs)"
  by (induction cs arbitrary: p) (simp_all add: step_valid)

lemma resolve_valid: "list_all validName (resolve s)"
  unfolding resolve_def
  by (rule foldl_step_valid) (auto dest: split_parts_no_sep)

lemma lookup_append:
  "lookup fs (p @ q) = (case lookup fs p of None \<Rightarrow> None | Some n \<Rightarrow> lookup n q)"
proof (induction p arbitrary: fs)
  case Nil
  show ?case by simp
next
  case (Cons x p)
  show ?case by (cases fs) (auto simp: Cons.IH split: option.splits)
qed

lemma size_child: "map_of es x = Some n \<Longrightarrow> size n < size (Dir es)"
proof -
  assume "map_of es x = Some n"
  then have "(x, n) \<in> set es" by (rule map_of_SomeD)
  then have "size_prod (\<lambda>_. 0) size (x, n) \<le> size_list (size_prod (\<lambda>_. 0) size) es"
    by (simp add: size_list_estimation')
  then show ?thesis by simp
qed

lemma size_lookup: "lookup fs p = Some n \<Longrightarrow> size n \<le> size fs"
proof (induction p arbitrary: fs)
  case Nil
  then show ?case by simp
next
  case (Cons x p)
  show ?case
  proof (cases fs)
    case (File c)
    with Cons.prems show ?thesis by simp
  next
    case (Dir es)
    with Cons.prems obtain m where m: "map_of es x = Some m" "lookup m p = Some n"
      by (auto split: option.splits)
    from Cons.IH[OF m(2)] size_child[OF m(1)] Dir show ?thesis by simp
  qed
qed

lemma wellFormed_child: "wellFormed (Dir es) \<Longrightarrow> map_of es x = Some n \<Longrightarrow> wellFormed n"
  by (auto simp: list_all_iff dest!: map_of_SomeD)

lemma wellFormed_lookup: "wellFormed fs \<Longrightarrow> lookup fs p = Some n \<Longrightarrow> wellFormed n"
proof (induction p arbitrary: fs)
  case Nil
  then show ?case by simp
next
  case (Cons x p)
  show ?case
  proof (cases fs)
    case (File c)
    with Cons.prems show ?thesis by simp
  next
    case (Dir es)
    with Cons.prems obtain m where m: "map_of es x = Some m" "lookup m p = Some n"
      by (auto split: option.splits)
    from Cons.prems(1) Dir have "wellFormed (Dir es)" by simp
    then have "wellFormed m" using m(1) by (rule wellFormed_child)
    from Cons.IH[OF this m(2)] show ?thesis .
  qed
qed

text \<open>Storing and erasing at a path.\<close>

lemma store_same: "lookup fs p = Some n \<Longrightarrow> store p n fs = fs"
proof (induction p arbitrary: fs)
  case Nil
  then show ?case by simp
next
  case (Cons x p)
  show ?case
  proof (cases fs)
    case (File c)
    then show ?thesis by simp
  next
    case (Dir es)
    with Cons.prems obtain m where m: "map_of es x = Some m" "lookup m p = Some n"
      by (auto split: option.splits)
    from Cons.IH[OF m(2)] m(1) Dir show ?thesis by (simp add: update_triv)
  qed
qed

lemma lookup_store: "lookup fs p = Some old \<Longrightarrow> lookup (store p new fs) p = Some new"
proof (induction p arbitrary: fs)
  case Nil
  then show ?case by simp
next
  case (Cons x p)
  show ?case
  proof (cases fs)
    case (File c)
    with Cons.prems show ?thesis by simp
  next
    case (Dir es)
    with Cons.prems obtain m where m: "map_of es x = Some m" "lookup m p = Some old"
      by (auto split: option.splits)
    from Cons.IH[OF m(2)] m(1) Dir show ?thesis by (simp add: update_conv')
  qed
qed

lemma erase_store_child:
  "erase (p @ [x]) (store (p @ [x]) new fs) = erase (p @ [x]) fs"
proof (induction p arbitrary: fs)
  case Nil
  show ?case by (cases fs) (auto simp: delete_update_same split: option.splits)
next
  case (Cons y p)
  show ?case
  proof (cases fs)
    case (File c)
    then show ?thesis by simp
  next
    case (Dir es)
    then show ?thesis
      by (auto simp: Cons.IH update_conv' split: option.splits)
  qed
qed

lemma lookup_erase_child:
  "lookup fs p = Some (Dir es) \<Longrightarrow>
   lookup (erase (p @ [x]) fs) p = Some (Dir (AList.delete x es))"
proof (induction p arbitrary: fs)
  case Nil
  then show ?case by simp
next
  case (Cons y p)
  show ?case
  proof (cases fs)
    case (File c)
    with Cons.prems show ?thesis by simp
  next
    case (Dir ds)
    with Cons.prems obtain m where m: "map_of ds y = Some m" "lookup m p = Some (Dir es)"
      by (auto split: option.splits)
    from Cons.IH[OF m(2)] m(1) Dir show ?thesis by (simp add: update_conv')
  qed
qed

lemma store_erase_child: "store p new (erase (p @ [x]) fs) = store p new fs"
proof (induction p arbitrary: fs)
  case Nil
  show ?case by simp
next
  case (Cons y p)
  show ?case
  proof (cases fs)
    case (File c)
    then show ?thesis by simp
  next
    case (Dir es)
    then show ?thesis
      by (auto simp: Cons.IH update_conv' split: option.splits)
  qed
qed

lemma set_update_subset: "set (AList.update k v al) \<subseteq> insert (k, v) (set al)"
  by (induction al) auto

lemma set_delete_subset: "set (AList.delete k al) \<subseteq> set al"
  by (auto simp: AList.delete_eq)

lemma wellFormed_update:
  assumes "wellFormed (Dir es)" and "wellFormed n" and "validName x"
  shows "wellFormed (Dir (AList.update x n es))"
proof -
  have d: "distinct (map fst (AList.update x n es))"
    using assms(1) by (simp add: distinct_update)
  have "\<forall>e\<in>set (AList.update x n es). validName (fst e) \<and> wellFormed (snd e)"
    using assms set_update_subset[of x n es] by (auto simp: list_all_iff)
  with d show ?thesis by (simp add: list_all_iff)
qed

lemma wellFormed_delete:
  assumes "wellFormed (Dir es)"
  shows "wellFormed (Dir (AList.delete x es))"
proof -
  have d: "distinct (map fst (AList.delete x es))"
    using assms by (simp add: distinct_delete)
  have "\<forall>e\<in>set (AList.delete x es). validName (fst e) \<and> wellFormed (snd e)"
    using assms set_delete_subset[of x es] by (auto simp: list_all_iff)
  with d show ?thesis by (simp add: list_all_iff)
qed

lemma validName_child: "wellFormed (Dir es) \<Longrightarrow> map_of es x = Some n \<Longrightarrow> validName x"
  by (auto simp: list_all_iff dest!: map_of_SomeD)

lemma wellFormed_erase: "wellFormed fs \<Longrightarrow> wellFormed (erase p fs)"
proof (induction p arbitrary: fs)
  case Nil
  then show ?case by simp
next
  case (Cons x p)
  show ?case
  proof (cases fs)
    case (File c)
    then show ?thesis by simp
  next
    case (Dir es)
    show ?thesis
    proof (cases "p = []")
      case True
      with Dir Cons.prems show ?thesis using wellFormed_delete[of es x] by simp
    next
      case False
      show ?thesis
      proof (cases "map_of es x")
        case None
        with Dir False Cons.prems show ?thesis by simp
      next
        case (Some m)
        have wd: "wellFormed (Dir es)" using Dir Cons.prems by simp
        have "wellFormed m" using wd Some by (rule wellFormed_child)
        then have "wellFormed (erase p m)" by (rule Cons.IH)
        moreover have "validName x" using wd Some by (rule validName_child)
        ultimately have "wellFormed (Dir (AList.update x (erase p m) es))"
          using wd by (simp only: wellFormed_update)
        with Dir False Some show ?thesis by simp
      qed
    qed
  qed
qed

lemma wellFormed_store:
  "wellFormed fs \<Longrightarrow> wellFormed new \<Longrightarrow> list_all validName p \<Longrightarrow> wellFormed (store p new fs)"
proof (induction p arbitrary: fs)
  case Nil
  then show ?case by simp
next
  case (Cons x p)
  show ?case
  proof (cases fs)
    case (File c)
    then show ?thesis by simp
  next
    case (Dir es)
    have wd: "wellFormed (Dir es)" using Dir Cons.prems by simp
    have vx: "validName x" using Cons.prems by simp
    show ?thesis
    proof (cases "map_of es x")
      case None
      show ?thesis
      proof (cases "p = []")
        case True
        have "wellFormed (Dir (AList.update x new es))"
          using wd Cons.prems(2) vx by (rule wellFormed_update)
        with Dir None True show ?thesis by simp
      next
        case False
        with Dir None wd show ?thesis by simp
      qed
    next
      case (Some m)
      have "wellFormed m" using wd Some by (rule wellFormed_child)
      then have "wellFormed (store p new m)" using Cons.prems by (simp add: Cons.IH)
      then have "wellFormed (Dir (AList.update x (store p new m) es))"
        using wd vx by (simp only: wellFormed_update)
      with Dir Some show ?thesis by simp
    qed
  qed
qed

subsection \<open>Walking a path\<close>

text \<open>
  A walk that succeeds ends at the normal form of the path text.  A walk without \<open>..\<close>
  passes only through the directories above its end, so it is not disturbed by a change
  of the tree below its end.
\<close>

lemma walk_append:
  "walk fs p (cs @ ds) = (case walk fs p cs of None \<Rightarrow> None | Some q \<Rightarrow> walk fs q ds)"
proof (induction cs arbitrary: p)
  case Nil
  show ?case by simp
next
  case (Cons c cs)
  show ?case
  proof (cases "lookup fs p")
    case None
    then show ?thesis by simp
  next
    case (Some n)
    then show ?thesis by (cases n) (simp_all add: Cons.IH)
  qed
qed

lemma walk_step: "walk fs p cs = Some q \<Longrightarrow> q = foldl step p cs"
proof (induction cs arbitrary: p)
  case Nil
  then show ?case by simp
next
  case (Cons c cs)
  from Cons.prems obtain es where d: "lookup fs p = Some (Dir es)"
    by (auto split: option.splits node.splits)
  show ?case
  proof (cases "c = [] \<or> c = ''.''")
    case True
    with Cons.prems d have "walk fs p cs = Some q" by simp
    with Cons.IH True show ?thesis by (simp add: step_def)
  next
    case False
    show ?thesis
    proof (cases "c = ''..''")
      case True
      with Cons.prems d have "walk fs (butlast p) cs = Some q" by simp
      with Cons.IH True show ?thesis by (simp add: step_def)
    next
      case nd: False
      with False Cons.prems d have "walk fs (p @ [c]) cs = Some q"
        by (simp split: if_splits)
      with Cons.IH False nd show ?thesis by (simp add: step_def)
    qed
  qed
qed

lemma walk_prefix: "''..'' \<notin> set cs \<Longrightarrow> walk fs p cs = Some q \<Longrightarrow> prefix p q"
proof (induction cs arbitrary: p)
  case Nil
  then show ?case by simp
next
  case (Cons c cs)
  from Cons.prems obtain es where d: "lookup fs p = Some (Dir es)"
    by (auto split: option.splits node.splits)
  have nd: "c \<noteq> ''..''" "''..'' \<notin> set cs" using Cons.prems(1) by auto
  show ?case
  proof (cases "c = [] \<or> c = ''.''")
    case True
    with Cons.prems d have "walk fs p cs = Some q" by simp
    with Cons.IH nd show ?thesis by simp
  next
    case False
    with nd Cons.prems d have "walk fs (p @ [c]) cs = Some q"
      by (simp split: if_splits)
    with Cons.IH nd have "prefix (p @ [c]) q" by simp
    then show ?thesis by (rule append_prefixD)
  qed
qed

lemma kind_erase:
  "\<not> prefix r r' \<Longrightarrow>
   map_option isDirectory (lookup (erase r fs) r') = map_option isDirectory (lookup fs r')"
proof (induction r arbitrary: fs r')
  case Nil
  then show ?case by simp
next
  case (Cons x p)
  show ?case
  proof (cases fs)
    case (File c)
    then show ?thesis by simp
  next
    case (Dir es)
    show ?thesis
    proof (cases r')
      case Nil
      with Dir show ?thesis by (simp split: option.splits)
    next
      case (Cons y r'')
      show ?thesis
      proof (cases "y = x")
        case False
        with Dir Cons show ?thesis by (simp add: update_conv' split: option.splits)
      next
        case True
        with Cons.prems Cons have np: "\<not> prefix p r''" by simp
        then have pne: "p \<noteq> []" by auto
        show ?thesis
        proof (cases "map_of es x")
          case None
          with Dir Cons True pne show ?thesis by simp
        next
          case (Some n)
          from np have "map_option isDirectory (lookup (erase p n) r'')
              = map_option isDirectory (lookup n r'')" by (rule Cons.IH)
          with Dir Cons True pne Some show ?thesis by (simp add: update_conv')
        qed
      qed
    qed
  qed
qed

lemma kind_store:
  "\<not> prefix r r' \<Longrightarrow>
   map_option isDirectory (lookup (store r new fs) r') = map_option isDirectory (lookup fs r')"
proof (induction r arbitrary: fs r')
  case Nil
  then show ?case by simp
next
  case (Cons x p)
  show ?case
  proof (cases fs)
    case (File c)
    then show ?thesis by simp
  next
    case (Dir es)
    show ?thesis
    proof (cases r')
      case Nil
      with Dir show ?thesis by (simp split: option.splits)
    next
      case (Cons y r'')
      show ?thesis
      proof (cases "y = x")
        case False
        with Dir Cons show ?thesis by (simp add: update_conv' split: option.splits)
      next
        case True
        with Cons.prems Cons have np: "\<not> prefix p r''" by simp
        then have pne: "p \<noteq> []" by auto
        show ?thesis
        proof (cases "map_of es x")
          case None
          with Dir Cons True pne show ?thesis by simp
        next
          case (Some n)
          from np have "map_option isDirectory (lookup (store p new n) r'')
              = map_option isDirectory (lookup n r'')" by (rule Cons.IH)
          with Dir Cons True Some show ?thesis by (simp add: update_conv')
        qed
      qed
    qed
  qed
qed

lemma kind_Dir:
  "map_option isDirectory (lookup fs r) = Some True \<longleftrightarrow> (\<exists>es. lookup fs r = Some (Dir es))"
proof (cases "lookup fs r")
  case None
  then show ?thesis by simp
next
  case (Some n)
  then show ?thesis by (cases n) auto
qed

lemma walk_stable:
  "''..'' \<notin> set cs \<Longrightarrow> walk fs p cs = Some q \<Longrightarrow>
   \<forall>r. prefix p r \<longrightarrow> prefix r q \<longrightarrow>
     map_option isDirectory (lookup fs' r) = map_option isDirectory (lookup fs r) \<Longrightarrow>
   walk fs' p cs = Some q"
proof (induction cs arbitrary: p)
  case Nil
  then show ?case by simp
next
  case (Cons c cs)
  from Cons.prems(2) obtain es where d: "lookup fs p = Some (Dir es)"
    by (auto split: option.splits node.splits)
  have nd: "c \<noteq> ''..''" "''..'' \<notin> set cs" using Cons.prems(1) by auto
  have pq: "prefix p q" using Cons.prems(1,2) by (rule walk_prefix)
  then have "map_option isDirectory (lookup fs' p) = Some True"
    using Cons.prems(3) d by simp
  then have "\<exists>es'. lookup fs' p = Some (Dir es')" by (simp only: kind_Dir)
  then obtain es' where d': "lookup fs' p = Some (Dir es')" by blast
  show ?case
  proof (cases "c = [] \<or> c = ''.''")
    case True
    with Cons.prems(2) d have "walk fs p cs = Some q" by simp
    with nd(2) have "walk fs' p cs = Some q" using Cons.prems(3) by (rule Cons.IH)
    with True d' show ?thesis by simp
  next
    case False
    with nd Cons.prems(2) d have ex: "lookup fs (p @ [c]) \<noteq> None"
      and w: "walk fs (p @ [c]) cs = Some q"
      by (simp_all split: if_splits)
    have pcq: "prefix (p @ [c]) q" using nd(2) w by (rule walk_prefix)
    then have "map_option isDirectory (lookup fs' (p @ [c]))
        = map_option isDirectory (lookup fs (p @ [c]))"
      using Cons.prems(3) by simp
    with ex have ex': "lookup fs' (p @ [c]) \<noteq> None" by auto
    have "\<forall>r. prefix (p @ [c]) r \<longrightarrow> prefix r q \<longrightarrow>
        map_option isDirectory (lookup fs' r) = map_option isDirectory (lookup fs r)"
      using Cons.prems(3) by (auto dest: append_prefixD)
    with nd(2) w have "walk fs' (p @ [c]) cs = Some q" by (rule Cons.IH)
    with False nd d' ex' show ?thesis by simp
  qed
qed

lemma realpath_resolve: "realpath fs s = Some p \<Longrightarrow> p = resolve s"
  by (auto simp: realpath_def resolve_def dest: walk_step split: if_splits)

lemma realpath_below:
  assumes "''..'' \<notin> set (split CHR ''/'' dir)" and "realpath fs dir = Some p"
    and "\<forall>r. prefix r p \<longrightarrow>
      map_option isDirectory (lookup fs' r) = map_option isDirectory (lookup fs r)"
  shows "realpath fs' dir = Some p"
proof -
  from assms(2) have ne: "dir \<noteq> []" and w: "walk fs [] (split CHR ''/'' dir) = Some p"
    by (auto simp: realpath_def split: if_splits)
  have "\<forall>r. prefix [] r \<longrightarrow> prefix r p \<longrightarrow>
      map_option isDirectory (lookup fs' r) = map_option isDirectory (lookup fs r)"
    using assms(3) by simp
  with assms(1) w have "walk fs' [] (split CHR ''/'' dir) = Some p"
    by (rule walk_stable)
  with ne show ?thesis by (simp add: realpath_def)
qed

lemma not_prefix_child: "prefix r p \<Longrightarrow> \<not> prefix (p @ [x]) r"
  by (auto simp: prefix_def)

lemma realpath_erase_child:
  "''..'' \<notin> set (split CHR ''/'' dir) \<Longrightarrow> realpath fs dir = Some p \<Longrightarrow>
   realpath (erase (p @ [x]) fs) dir = Some p"
  by (erule (1) realpath_below) (simp add: kind_erase not_prefix_child)

lemma realpath_store_child:
  "''..'' \<notin> set (split CHR ''/'' dir) \<Longrightarrow> realpath fs dir = Some p \<Longrightarrow>
   realpath (store (p @ [x]) new fs) dir = Some p"
  by (erule (1) realpath_below) (simp add: kind_store not_prefix_child)

lemma split_child:
  "validName file \<Longrightarrow> split CHR ''/'' (dir @ CHR ''/'' # file) = split CHR ''/'' dir @ [file]"
proof -
  assume "validName file"
  then have "split CHR ''/'' file = [file]"
    by (simp add: validName_def split_no_sep)
  then show ?thesis
    using split_append_sep[of "CHR ''/''" dir "file"] by simp
qed

lemma realpath_child:
  assumes "realpath fs dir = Some p" and "lookup fs p = Some (Dir es)"
    and "map_of es file = Some n" and "validName file"
  shows "realpath fs (dir @ ''/'' @ file) = Some (p @ [file])"
proof -
  from assms(1) have w: "walk fs [] (split CHR ''/'' dir) = Some p"
    by (auto simp: realpath_def split: if_splits)
  have l: "lookup fs (p @ [file]) = Some n"
    using assms(2,3) by (simp add: lookup_append)
  have "walk fs p [file] = Some (p @ [file])"
    using assms(2,4) l by (simp add: validName_def)
  with w have "walk fs [] (split CHR ''/'' dir @ [file]) = Some (p @ [file])"
    by (simp add: walk_append)
  then show ?thesis
    using assms(4) by (simp add: realpath_def split_child)
qed

lemma dotdot_free_child:
  "''..'' \<notin> set (split CHR ''/'' dir) \<Longrightarrow> validName file \<Longrightarrow>
   ''..'' \<notin> set (split CHR ''/'' (dir @ ''/'' @ file))"
  by (auto simp: split_child validName_def)

subsection \<open>Cleaning a directory\<close>

text \<open>
  For a path text without \<open>..\<close> that names a directory of a well-formed tree, and with
  a bound that the size of the directory does not exceed, cleaning ends without an
  exception and leaves the directory empty; every other part of the tree is as before.
\<close>

lemma size_entry: "(x, m) \<in> set es \<Longrightarrow> size m < size (Dir es)"
proof -
  assume "(x, m) \<in> set es"
  then have "size_prod (\<lambda>_. 0) size (x, m) \<le> size_list (size_prod (\<lambda>_. 0) size) es"
    by (simp add: size_list_estimation')
  then show ?thesis by simp
qed

lemma cleanFiles_correct:
  assumes A: "\<And>dir fs p es. wellFormed fs \<Longrightarrow> ''..'' \<notin> set (split CHR ''/'' dir) \<Longrightarrow>
      realpath fs dir = Some p \<Longrightarrow> lookup fs p = Some (Dir es) \<Longrightarrow> size (Dir es) \<le> n \<Longrightarrow>
      cleanDirectoryF n dir fs = (None, store p (Dir []) fs)"
  shows "wellFormed fs \<Longrightarrow> ''..'' \<notin> set (split CHR ''/'' dir) \<Longrightarrow>
      realpath fs dir = Some p \<Longrightarrow> lookup fs p = Some (Dir es) \<Longrightarrow>
      set files = fst ` set es \<Longrightarrow> distinct files \<Longrightarrow> \<forall>m\<in>snd ` set es. size m \<le> n \<Longrightarrow>
      cleanFiles n dir files fs = (None, store p (Dir []) fs)"
proof (induction files arbitrary: fs es)
  case Nil
  then have "es = []" by simp
  with Nil.prems(4) have "store p (Dir []) fs = fs" by (simp add: store_same)
  then show ?case by simp
next
  case (Cons f files)
  let ?path = "dir @ ''/'' @ f"
  let ?q = "p @ [f]"
  have wd: "wellFormed (Dir es)"
    using Cons.prems(1,4) by (rule wellFormed_lookup)
  have "f \<in> fst ` set es" using Cons.prems(5) by auto
  then obtain m where m: "map_of es f = Some m"
    by (cases "map_of es f") (auto simp: map_of_eq_None_iff)
  have vf: "validName f" using wd m by (rule validName_child)
  have rp: "realpath fs ?path = Some ?q"
    using Cons.prems(3,4) m vf by (rule realpath_child)
  have look: "lookup fs ?q = Some m"
    using Cons.prems(4) m by (simp add: lookup_append)
  have stat: "statSync fs ?path = Inr m"
    using look rp by (simp add: statSync_def locate_def)
  have msize: "size m \<le> n"
    using Cons.prems(7) m by (auto dest!: map_of_SomeD simp: image_iff)
  define fs2 where "fs2 = erase ?q fs"
  have w2: "wellFormed fs2" using Cons.prems(1) by (simp add: fs2_def wellFormed_erase)
  have r2: "realpath fs2 dir = Some p"
    unfolding fs2_def using Cons.prems(2,3) by (rule realpath_erase_child)
  have l2: "lookup fs2 p = Some (Dir (AList.delete f es))"
    using Cons.prems(4) by (simp add: fs2_def lookup_erase_child)
  have s2: "set files = fst ` set (AList.delete f es)"
  proof -
    have "fst ` set (AList.delete f es) = set (map fst (AList.delete f es))" by simp
    also have "\<dots> = set (map fst es) - {f}" by (simp add: delete_keys)
    also have "\<dots> = set (f # files) - {f}" using Cons.prems(5) by simp
    also have "\<dots> = set files" using Cons.prems(6) by simp
    finally show ?thesis by simp
  qed
  have d2: "distinct files" using Cons.prems(6) by simp
  have z2: "\<forall>m\<in>snd ` set (AList.delete f es). size m \<le> n"
    using Cons.prems(7) set_delete_subset[of f es] by auto
  have rest: "cleanFiles n dir files fs2 = (None, store p (Dir []) fs)"
    using Cons.IH[OF w2 Cons.prems(2) r2 l2 s2 d2 z2]
    by (simp add: fs2_def store_erase_child)
  show ?case
  proof (cases m)
    case (File c)
    have "unlinkSync fs ?path = Inr fs2"
      using look rp File by (simp add: unlinkSync_def fs2_def)
    with stat File rest show ?thesis by simp
  next
    case (Dir cs)
    let ?fs1 = "store ?q (Dir []) fs"
    have nd: "''..'' \<notin> set (split CHR ''/'' ?path)"
      using Cons.prems(2) vf by (rule dotdot_free_child)
    have lq: "lookup fs ?q = Some (Dir cs)" using look Dir by simp
    have cl: "cleanDirectoryF n ?path fs = (None, ?fs1)"
      using Cons.prems(1) nd rp lq msize[unfolded Dir] by (rule A)
    have l1: "lookup ?fs1 ?q = Some (Dir [])"
      using lq by (rule lookup_store)
    have "\<forall>r. prefix r ?q \<longrightarrow>
        map_option isDirectory (lookup ?fs1 r) = map_option isDirectory (lookup fs r)"
    proof (intro allI impI)
      fix r assume pr: "prefix r ?q"
      show "map_option isDirectory (lookup ?fs1 r) = map_option isDirectory (lookup fs r)"
      proof (cases "r = ?q")
        case True
        with l1 lq show ?thesis by simp
      next
        case False
        with pr have "\<not> prefix ?q r" by (auto dest: prefix_order.antisym)
        then show ?thesis by (rule kind_store)
      qed
    qed
    with nd rp have r1: "realpath ?fs1 ?path = Some ?q" by (rule realpath_below)
    have "rmdirSync ?fs1 ?path = Inr fs2"
      using r1 l1 by (simp add: rmdirSync_def fs2_def erase_store_child)
    with cl stat Dir rest show ?thesis by simp
  qed
qed

lemma cleanDirectoryF_correct:
  "wellFormed fs \<Longrightarrow> ''..'' \<notin> set (split CHR ''/'' dir) \<Longrightarrow> realpath fs dir = Some p \<Longrightarrow>
   lookup fs p = Some (Dir es) \<Longrightarrow> size (Dir es) \<le> n \<Longrightarrow>
   cleanDirectoryF n dir fs = (None, store p (Dir []) fs)"
proof (induction n arbitrary: dir fs p es)
  case 0
  then show ?case by simp
next
  case (Suc n)
  have wd: "wellFormed (Dir es)"
    using Suc.prems(1,4) by (rule wellFormed_lookup)
  have ex: "existsSync fs dir"
    using Suc.prems(3,4) by (simp add: existsSync_def locate_def)
  have rd: "readdirSync fs dir = Inr (map fst es)"
    using Suc.prems(3,4) by (simp add: readdirSync_def locate_def)
  have sz: "\<forall>m\<in>snd ` set es. size m \<le> n"
  proof
    fix m assume "m \<in> snd ` set es"
    then obtain x where "(x, m) \<in> set es" by auto
    then have "size m < size (Dir es)" by (rule size_entry)
    with Suc.prems(5) show "size m \<le> n" by simp
  qed
  have "cleanFiles n dir (map fst es) fs = (None, store p (Dir []) fs)"
  proof (rule cleanFiles_correct[OF _ Suc.prems(1,2,3,4)])
    show "set (map fst es) = fst ` set es" by simp
    show "distinct (map fst es)" using wd by simp
    show "\<forall>m\<in>snd ` set es. size m \<le> n" by (rule sz)
  next
    fix dir' fs' p' es'
    assume "wellFormed fs'" "''..'' \<notin> set (split CHR ''/'' dir')" "realpath fs' dir' = Some p'"
      "lookup fs' p' = Some (Dir es')" "size (Dir es') \<le> n"
    then show "cleanDirectoryF n dir' fs' = (None, store p' (Dir []) fs')"
      by (rule Suc.IH)
  qed
  with ex rd show ?case by simp
qed

lemma cleanDirectory_correct:
  assumes "wellFormed fs" and "''..'' \<notin> set (split CHR ''/'' dir)"
  shows "cleanDirectory dir fs =
     (case locate fs dir of
        None \<Rightarrow> (None, fs)
      | Some (File c) \<Rightarrow> (Some (FsError ENOTDIR), fs)
      | Some (Dir es) \<Rightarrow> (None, store (resolve dir) (Dir []) fs))"
proof (cases "locate fs dir")
  case None
  then show ?thesis by (simp add: cleanDirectory_def existsSync_def)
next
  case (Some n)
  then obtain p where rp: "realpath fs dir = Some p" and l: "lookup fs p = Some n"
    by (auto simp: locate_def split: option.splits)
  have p: "p = resolve dir" using rp by (rule realpath_resolve)
  show ?thesis
  proof (cases n)
    case (File c)
    with Some show ?thesis
      by (simp add: cleanDirectory_def existsSync_def readdirSync_def)
  next
    case (Dir es)
    have l': "lookup fs p = Some (Dir es)" using l Dir by simp
    have "size (Dir es) \<le> Suc (size fs)"
      using size_lookup[OF l'] by simp
    with assms rp l'
    have "cleanDirectoryF (Suc (size fs)) dir fs = (None, store p (Dir []) fs)"
      by (rule cleanDirectoryF_correct)
    with Some Dir p show ?thesis by (simp add: cleanDirectory_def)
  qed
qed

subsection \<open>Config synthesis\<close>

text \<open>
  Making the directories of a path text without \<open>..\<close> that names nothing ends, when it
  ends without an exception, with an empty directory at the path.
\<close>

lemma lookup_None_below: "lookup fs p = None \<Longrightarrow> prefix p r \<Longrightarrow> lookup fs r = None"
  by (auto simp: prefix_def lookup_append)

lemma lookup_store_new:
  "lookup fs p = Some (Dir es) \<Longrightarrow> lookup (store (p @ [c]) new fs) (p @ [c]) = Some new"
proof (induction p arbitrary: fs)
  case Nil
  then show ?case by (simp add: update_conv' split: option.splits)
next
  case (Cons x p)
  show ?case
  proof (cases fs)
    case (File t)
    with Cons.prems show ?thesis by simp
  next
    case (Dir ds)
    with Cons.prems obtain m where m: "map_of ds x = Some m" "lookup m p = Some (Dir es)"
      by (auto split: option.splits)
    from Cons.IH[OF m(2)] m(1) Dir show ?thesis by (simp add: update_conv')
  qed
qed

lemma mkdirs_kind:
  "mkdirs cs p fs = (e, fs') \<Longrightarrow> lookup fs r \<noteq> None \<Longrightarrow>
   map_option isDirectory (lookup fs' r) = map_option isDirectory (lookup fs r)"
proof (induction cs arbitrary: p fs)
  case Nil
  then show ?case by simp
next
  case (Cons c cs)
  show ?case
  proof (cases "lookup fs p")
    case None
    with Cons.prems show ?thesis by simp
  next
    case (Some n)
    show ?thesis
    proof (cases n)
      case (File t)
      with Some Cons.prems show ?thesis by simp
    next
      case (Dir es)
      note d = Some[unfolded Dir]
      show ?thesis
      proof (cases "c = [] \<or> c = ''.''")
        case True
        with Cons.prems d have "mkdirs cs p fs = (e, fs')" by simp
        then show ?thesis using Cons.prems(2) by (rule Cons.IH)
      next
        case False
        show ?thesis
        proof (cases "c = ''..''")
          case True
          with Cons.prems d have "mkdirs cs (butlast p) fs = (e, fs')" by simp
          then show ?thesis using Cons.prems(2) by (rule Cons.IH)
        next
          case nd: False
          show ?thesis
          proof (cases "lookup fs (p @ [c])")
            case None
            let ?fs1 = "store (p @ [c]) (Dir []) fs"
            from None Cons.prems(1) d False nd have m: "mkdirs cs (p @ [c]) ?fs1 = (e, fs')"
              by simp
            have "\<not> prefix (p @ [c]) r"
              using None Cons.prems(2) by (auto dest: lookup_None_below)
            then have k: "map_option isDirectory (lookup ?fs1 r) = map_option isDirectory (lookup fs r)"
              by (rule kind_store)
            with Cons.prems(2) have "lookup ?fs1 r \<noteq> None" by auto
            with m have "map_option isDirectory (lookup fs' r) = map_option isDirectory (lookup ?fs1 r)"
              by (rule Cons.IH)
            with k show ?thesis by simp
          next
            case (Some m)
            show ?thesis
            proof (cases m)
              case (File t)
              with Some Cons.prems d False nd show ?thesis by simp
            next
              case (Dir es')
              with Some Cons.prems(1) d False nd have "mkdirs cs (p @ [c]) fs = (e, fs')"
                by simp
              then show ?thesis using Cons.prems(2) by (rule Cons.IH)
            qed
          qed
        qed
      qed
    qed
  qed
qed

lemma mkdirs_fuel: "fst (mkdirs cs p fs) \<noteq> Some OutOfFuel"
proof (induction cs arbitrary: p fs)
  case Nil
  show ?case by simp
next
  case (Cons c cs)
  show ?case
  proof (cases "lookup fs p")
    case None
    then show ?thesis by simp
  next
    case (Some n)
    show ?thesis
    proof (cases n)
      case (File t)
      with Some show ?thesis by simp
    next
      case (Dir es)
      show ?thesis
      proof (cases "lookup fs (p @ [c])")
        case None
        with Some Dir show ?thesis by (simp add: Cons.IH)
      next
        case s2: (Some m)
        with Some Dir show ?thesis by (cases m) (simp_all add: Cons.IH)
      qed
    qed
  qed
qed

lemma mkdirs_creates:
  "''..'' \<notin> set cs \<Longrightarrow> mkdirs cs p fs = (None, fs') \<Longrightarrow>
   walk fs p cs = None \<or> lookup fs p = Some (Dir []) \<Longrightarrow>
   \<exists>q. walk fs' p cs = Some q \<and> lookup fs' q = Some (Dir [])"
proof (induction cs arbitrary: p fs)
  case Nil
  then show ?case by simp
next
  case (Cons c cs)
  have nd: "c \<noteq> ''..''" "''..'' \<notin> set cs" using Cons.prems(1) by auto
  from Cons.prems(2) obtain es where d: "lookup fs p = Some (Dir es)"
    by (auto split: option.splits node.splits)
  have "map_option isDirectory (lookup fs' p) = map_option isDirectory (lookup fs p)"
    using Cons.prems(2) d by (simp only: mkdirs_kind[where r = p] option.distinct not_False_eq_True)
  then have "\<exists>es'. lookup fs' p = Some (Dir es')" using d by (simp add: kind_Dir[symmetric])
  then obtain es' where d': "lookup fs' p = Some (Dir es')" by blast
  show ?case
  proof (cases "c = [] \<or> c = ''.''")
    case True
    with Cons.prems(2) d have m: "mkdirs cs p fs = (None, fs')" by simp
    have "walk fs p cs = None \<or> lookup fs p = Some (Dir [])"
      using Cons.prems(3) True d by auto
    with nd(2) m obtain q where "walk fs' p cs = Some q" "lookup fs' q = Some (Dir [])"
      using Cons.IH by blast
    with True d' show ?thesis by simp
  next
    case False
    show ?thesis
    proof (cases "lookup fs (p @ [c])")
      case None
      let ?fs1 = "store (p @ [c]) (Dir []) fs"
      from None Cons.prems(2) d False nd have m: "mkdirs cs (p @ [c]) ?fs1 = (None, fs')"
        by simp
      have l1: "lookup ?fs1 (p @ [c]) = Some (Dir [])" using d by (rule lookup_store_new)
      then have "walk ?fs1 (p @ [c]) cs = None \<or> lookup ?fs1 (p @ [c]) = Some (Dir [])" by simp
      with nd(2) m obtain q where q: "walk fs' (p @ [c]) cs = Some q" "lookup fs' q = Some (Dir [])"
        using Cons.IH by blast
      have "map_option isDirectory (lookup fs' (p @ [c]))
          = map_option isDirectory (lookup ?fs1 (p @ [c]))"
        using m l1 by (simp only: mkdirs_kind[where r = "p @ [c]"] option.distinct not_False_eq_True)
      with l1 have "lookup fs' (p @ [c]) \<noteq> None" by auto
      with q d' False nd show ?thesis by simp
    next
      case (Some n)
      show ?thesis
      proof (cases n)
        case (File t)
        with Some Cons.prems(2) d False nd show ?thesis by simp
      next
        case (Dir es2)
        with Some Cons.prems(2) d False nd have m: "mkdirs cs (p @ [c]) fs = (None, fs')"
          by simp
        have "es \<noteq> []"
        proof
          assume "es = []"
          with d have "lookup fs (p @ [c]) = None" by (simp add: lookup_append)
          with Some show False by simp
        qed
        with Cons.prems(3) d have "walk fs p (c # cs) = None" by simp
        with d False nd Some have "walk fs (p @ [c]) cs = None" by simp
        then have "walk fs (p @ [c]) cs = None \<or> lookup fs (p @ [c]) = Some (Dir [])" by simp
        with nd(2) m obtain q where q: "walk fs' (p @ [c]) cs = Some q" "lookup fs' q = Some (Dir [])"
          using Cons.IH by blast
        have "map_option isDirectory (lookup fs' (p @ [c]))
            = map_option isDirectory (lookup fs (p @ [c]))"
          using m Some by (simp only: mkdirs_kind[where r = "p @ [c]"] option.distinct not_False_eq_True)
        with Some have "lookup fs' (p @ [c]) \<noteq> None" by auto
        with q d' False nd show ?thesis by simp
      qed
    qed
  qed
qed

lemma walk_exists:
  "''..'' \<notin> set cs \<Longrightarrow> walk fs p cs = Some q \<Longrightarrow> lookup fs p \<noteq> None \<Longrightarrow> lookup fs q \<noteq> None"
proof (induction cs arbitrary: p)
  case Nil
  then show ?case by simp
next
  case (Cons c cs)
  have nd: "c \<noteq> ''..''" "''..'' \<notin> set cs" using Cons.prems(1) by auto
  from Cons.prems(2) obtain es where d: "lookup fs p = Some (Dir es)"
    by (auto split: option.splits node.splits)
  show ?case
  proof (cases "c = [] \<or> c = ''.''")
    case True
    with Cons.prems(2) d have "walk fs p cs = Some q" by simp
    with nd(2) show ?thesis using Cons.prems(3) by (rule Cons.IH)
  next
    case False
    with nd Cons.prems(2) d have "lookup fs (p @ [c]) \<noteq> None" "walk fs (p @ [c]) cs = Some q"
      by (simp_all split: if_splits)
    with nd(2) show ?thesis using Cons.IH by blast
  qed
qed

lemma mkdirSync_creates:
  assumes "''..'' \<notin> set (split CHR ''/'' s)" and "locate fs s = None"
    and "mkdirSync fs s = (None, fs')"
  shows "locate fs' s = Some (Dir [])"
proof -
  from assms(3) have ne: "s \<noteq> []" and m: "mkdirs (split CHR ''/'' s) [] fs = (None, fs')"
    by (auto simp: mkdirSync_def split: if_splits)
  have "walk fs [] (split CHR ''/'' s) = None"
  proof (cases "walk fs [] (split CHR ''/'' s)")
    case None
    then show ?thesis .
  next
    case (Some q)
    with assms(1) have "lookup fs q \<noteq> None" by (rule walk_exists) simp
    with Some assms(2) ne show ?thesis by (simp add: locate_def realpath_def)
  qed
  then have "walk fs [] (split CHR ''/'' s) = None \<or> lookup fs [] = Some (Dir [])" by simp
  with assms(1) m obtain q where "walk fs' [] (split CHR ''/'' s) = Some q"
    "lookup fs' q = Some (Dir [])"
    using mkdirs_creates by blast
  with ne show ?thesis by (simp add: locate_def realpath_def)
qed

lemma mkdirSync_fuel: "fst (mkdirSync fs s) \<noteq> Some OutOfFuel"
  by (simp add: mkdirSync_def mkdirs_fuel)

lemma writeFileSync_store:
  assumes "writeFileSync fs s txt = Inr d"
  shows "d = store (resolve s) (File txt) fs" and "\<forall>es. lookup fs (resolve s) \<noteq> Some (Dir es)"
proof -
  let ?cs = "split CHR ''/'' s"
  from assms obtain p where w: "walk fs [] (butlast ?cs) = Some p"
    and n: "last ?cs \<noteq> []" "last ?cs \<noteq> ''.''" "last ?cs \<noteq> ''..''"
    and l: "\<forall>es. lookup fs (p @ [last ?cs]) \<noteq> Some (Dir es)"
    and d: "d = store (p @ [last ?cs]) (File txt) fs"
    by (auto simp: writeFileSync_def split: if_splits option.splits node.splits)
  have "?cs = butlast ?cs @ [last ?cs]" using split_not_Nil[of "CHR ''/''" s] by simp
  then have "resolve s = foldl step [] (butlast ?cs @ [last ?cs])" by (simp add: resolve_def)
  also have "\<dots> = step (foldl step [] (butlast ?cs)) (last ?cs)" by simp
  also have "\<dots> = step p (last ?cs)" using walk_step[OF w] by simp
  also have "\<dots> = p @ [last ?cs]" using n by (simp add: step_def)
  finally have r: "resolve s = p @ [last ?cs]" .
  show "d = store (resolve s) (File txt) fs" using d r by simp
  show "\<forall>es. lookup fs (resolve s) \<noteq> Some (Dir es)" using l r by simp
qed

lemma wellFormed_writeFileSync:
  "wellFormed fs \<Longrightarrow> writeFileSync fs s txt = Inr d \<Longrightarrow> wellFormed d"
proof -
  assume w: "wellFormed fs" and "writeFileSync fs s txt = Inr d"
  then have "d = store (resolve s) (File txt) fs" by (simp only: writeFileSync_store(1))
  with w show ?thesis by (simp add: wellFormed_store resolve_valid)
qed

lemma writeFileSync_fuel: "writeFileSync fs s txt \<noteq> Inl OutOfFuel"
  by (auto simp: writeFileSync_def split: if_splits option.splits node.splits)

lemma realpath_store_self:
  assumes "''..'' \<notin> set (split CHR ''/'' dir)" and "realpath fs dir = Some p"
    and "lookup fs p = Some (Dir es)"
  shows "realpath (store p (Dir es') fs) dir = Some p"
proof -
  have "\<forall>r. prefix r p \<longrightarrow>
      map_option isDirectory (lookup (store p (Dir es') fs) r) = map_option isDirectory (lookup fs r)"
  proof (intro allI impI)
    fix r assume pr: "prefix r p"
    show "map_option isDirectory (lookup (store p (Dir es') fs) r)
        = map_option isDirectory (lookup fs r)"
    proof (cases "r = p")
      case True
      with assms(3) lookup_store[OF assms(3), of "Dir es'"] show ?thesis by simp
    next
      case False
      with pr have "\<not> prefix p r" by (auto dest: prefix_order.antisym)
      then show ?thesis by (rule kind_store)
    qed
  qed
  with assms(1,2) show ?thesis by (rule realpath_below)
qed

lemma on_disk_cleanDirectory:
  assumes "wellFormed (disk w)" and "''..'' \<notin> set (split CHR ''/'' dir)"
  shows "on_disk (cleanDirectory dir) w =
     (case locate (disk w) dir of
        None \<Rightarrow> (Normal (), w)
      | Some (File c) \<Rightarrow> (Throw (FsError ENOTDIR), w)
      | Some (Dir es) \<Rightarrow> (Normal (), w\<lparr>disk := store (resolve dir) (Dir []) (disk w)\<rparr>))"
  using assms
  by (simp add: on_disk_def cleanDirectory_correct split: option.splits node.splits)

lemma on_disk_cleanDirectory_absent:
  "locate (disk w) dir = None \<Longrightarrow> on_disk (cleanDirectory dir) w = (Normal (), w)"
  by (simp add: on_disk_def cleanDirectory_def existsSync_def)

lemma on_disk_createDirectories:
  "on_disk (createDirectories [dir]) w =
     (if existsSync (disk w) dir then (Normal (), w)
      else case mkdirSync (disk w) dir of
             (Some x, d) \<Rightarrow> (Throw x, w\<lparr>disk := d\<rparr>)
           | (None, d) \<Rightarrow> (Normal (), w\<lparr>disk := d\<rparr>))"
  by (simp add: on_disk_def split: prod.splits option.splits)

lemma generate_xml: "(map_of (doxyFileOptions opts) ''GENERATE_XML'' = Some ''YES'') = outputXML opts"
  by (simp add: doxyFileOptions_def)

lemma disk_emit [simp]: "disk (emit m w) = disk w"
  by (simp add: emit_def)

lemma disk_record_call [simp]: "disk (record_call c w) = disk w"
  by (simp add: record_call_def)

lemma disk_external [simp]: "disk (external c d w) = d"
  by (simp add: external_def)

lemma prepare_absent:
  assumes xml: "outputXML opts"
    and wr: "writeFileSync (disk w) (doxygenConfigFile opts) (configText e (doxyFileOptions opts)) = Inr d"
    and ab: "locate d (xmlFolder opts) = None"
  shows "(fst (prepare e opts w), disk (snd (prepare e opts w))) =
     (case mkdirSync d (xmlFolder opts) of
        (Some x, d') \<Rightarrow> (Throw x, d')
      | (None, d') \<Rightarrow> (Normal (), d'))"
proof -
  let ?w0 = "if debug opts then emit (Log_CreatingConfig (doxygenConfigFile opts)) w else w"
  let ?cfg = "doxyFileOptions opts"
  let ?w1 = "external (Call_createConfig ?cfg (doxygenConfigFile opts)) d ?w0"
  let ?w1' = "if debug opts then emit Log_RunningDoxygen ?w1 else ?w1"
  have d0: "disk ?w0 = disk w" by simp
  have d1: "disk ?w1' = d" by simp
  have cc: "createConfig e ?cfg (doxygenConfigFile opts) ?w0 = (Normal (), ?w1)"
    using wr by (simp add: createConfig_def d0)
  have cl: "on_disk (cleanDirectory (xmlFolder opts)) ?w1' = (Normal (), ?w1')"
    using ab d1 by (simp only: on_disk_cleanDirectory_absent)
  have ne: "\<not> existsSync (disk ?w1') (xmlFolder opts)"
    using ab d1 by (simp add: existsSync_def)
  obtain x d' where m: "mkdirSync d (xmlFolder opts) = (x, d')"
    by (cases "mkdirSync d (xmlFolder opts)") auto
  show ?thesis
    using cc xml cl ne d1 m
    by (cases x) (simp_all add: prepare_def generate_xml on_disk_createDirectories)
qed

lemma prepare_outputXML:
  assumes wf: "wellFormed (disk w)" and xml: "outputXML opts"
    and nd: "''..'' \<notin> set (split CHR ''/'' (xmlFolder opts))"
  shows "(fst (prepare e opts w), disk (snd (prepare e opts w))) =
     (case writeFileSync (disk w) (doxygenConfigFile opts) (configText e (doxyFileOptions opts)) of
        Inl x \<Rightarrow> (Throw x, disk w)
      | Inr d \<Rightarrow>
          (case locate d (xmlFolder opts) of
             None \<Rightarrow>
               (case mkdirSync d (xmlFolder opts) of
                  (Some x, d') \<Rightarrow> (Throw x, d')
                | (None, d') \<Rightarrow> (Normal (), d'))
           | Some (File c) \<Rightarrow> (Throw (FsError ENOTDIR), d)
           | Some (Dir es) \<Rightarrow> (Normal (), store (resolve (xmlFolder opts)) (Dir []) d)))"
proof -
  let ?w0 = "if debug opts then emit (Log_CreatingConfig (doxygenConfigFile opts)) w else w"
  let ?cfg = "doxyFileOptions opts"
  let ?wr = "writeFileSync (disk w) (doxygenConfigFile opts) (configText e ?cfg)"
  have d0: "disk ?w0 = disk w" by simp
  show ?thesis
  proof (cases ?wr)
    case (Inl x)
    then show ?thesis by (simp add: prepare_def createConfig_def d0)
  next
    case (Inr d)
    have wd: "wellFormed d" using wf Inr by (rule wellFormed_writeFileSync)
    let ?w1 = "external (Call_createConfig ?cfg (doxygenConfigFile opts)) d ?w0"
    let ?w1' = "if debug opts then emit Log_RunningDoxygen ?w1 else ?w1"
    have d1: "disk ?w1' = d" by simp
    have wd1: "wellFormed (disk ?w1')" using wd d1 by simp
    have cc: "createConfig e ?cfg (doxygenConfigFile opts) ?w0 = (Normal (), ?w1)"
      using Inr by (simp add: createConfig_def d0)
    show ?thesis
    proof (cases "locate d (xmlFolder opts)")
      case None
      with prepare_absent[OF xml Inr None] Inr show ?thesis by simp
    next
      case (Some n)
      show ?thesis
      proof (cases n)
        case (File c)
        then have "on_disk (cleanDirectory (xmlFolder opts)) ?w1' = (Throw (FsError ENOTDIR), ?w1')"
          using on_disk_cleanDirectory[OF wd1 nd] d1 Some by simp
        then show ?thesis
          using Inr Some File cc xml d1 by (simp add: prepare_def generate_xml)
      next
        case (Dir es)
        let ?w2 = "?w1'\<lparr>disk := store (resolve (xmlFolder opts)) (Dir []) d\<rparr>"
        have cl: "on_disk (cleanDirectory (xmlFolder opts)) ?w1' = (Normal (), ?w2)"
          using on_disk_cleanDirectory[OF wd1 nd] d1 Some Dir by simp
        from Some Dir obtain p where rp: "realpath d (xmlFolder opts) = Some p"
          and lp: "lookup d p = Some (Dir es)"
          by (auto simp: locate_def split: option.splits)
        have p: "p = resolve (xmlFolder opts)" using rp by (rule realpath_resolve)
        have "realpath (store p (Dir []) d) (xmlFolder opts) = Some p"
          using nd rp lp by (rule realpath_store_self)
        moreover have "lookup (store p (Dir []) d) p = Some (Dir [])"
          using lp by (rule lookup_store)
        ultimately have "existsSync (disk ?w2) (xmlFolder opts)"
          using p by (simp add: existsSync_def locate_def)
        then show ?thesis
          using Inr Some Dir cc xml cl
          by (simp add: prepare_def generate_xml on_disk_createDirectories)
      qed
    qed
  qed
qed

text \<open>
  Claim C7, as amended.  With XML output asked for, on a well-formed file system, and for
  a path of the XML folder without a component \<open>..\<close>: when \<open>prepare\<close> returns, the XML
  folder exists and has no entry, so the tool, which \<open>run\<close> starts on the disk that
  \<open>prepare\<close> leaves, finds no file of an earlier run.  The bound on the recursion of
  \<open>cleanDirectory\<close> is never reached.  \<open>prepare\<close> returns exactly when the configuration
  file can be written and the folder then is a directory, or is absent and can be made;
  otherwise an exception of the file system leaves \<open>prepare\<close> and the tool is not started.
  This last part is a statement about the file system as it is modelled here, a tree of
  directories and files without links and without permissions, and about \<open>createConfig\<close>
  as the spec describes it; the emptiness of the folder after a return depends on neither.
\<close>

theorem prepare_empties_xmlFolder:
  assumes wf: "wellFormed (disk w)" and xml: "outputXML opts"
    and nd: "''..'' \<notin> set (split CHR ''/'' (xmlFolder opts))"
  shows "(fst (prepare e opts w) = Normal () \<longrightarrow>
            locate (disk (snd (prepare e opts w))) (xmlFolder opts) = Some (Dir [])
          \<and> readdirSync (disk (snd (prepare e opts w))) (xmlFolder opts) = Inr [])
       \<and> fst (prepare e opts w) \<noteq> Throw OutOfFuel
       \<and> (fst (prepare e opts w) = Normal () \<longleftrightarrow>
            (\<exists>d. writeFileSync (disk w) (doxygenConfigFile opts)
                    (configText e (doxyFileOptions opts)) = Inr d
               \<and> ((\<exists>es. locate d (xmlFolder opts) = Some (Dir es))
                  \<or> (locate d (xmlFolder opts) = None
                     \<and> (\<exists>d'. mkdirSync d (xmlFolder opts) = (None, d'))))))"
proof -
  let ?wr = "writeFileSync (disk w) (doxygenConfigFile opts) (configText e (doxyFileOptions opts))"
  note p = prepare_outputXML[OF wf xml nd, of e]
  show ?thesis
  proof (cases ?wr)
    case (Inl x)
    with p writeFileSync_fuel[of "disk w" "doxygenConfigFile opts" "configText e (doxyFileOptions opts)"]
    show ?thesis by auto
  next
    case (Inr d)
    show ?thesis
    proof (cases "locate d (xmlFolder opts)")
      case None
      obtain x d' where m: "mkdirSync d (xmlFolder opts) = (x, d')"
        by (cases "mkdirSync d (xmlFolder opts)") auto
      show ?thesis
      proof (cases x)
        case (Some y)
        with p Inr None m mkdirSync_fuel[of d "xmlFolder opts"] show ?thesis by auto
      next
        case n: None
        have l: "locate d' (xmlFolder opts) = Some (Dir [])"
          using nd None m[unfolded n] by (rule mkdirSync_creates)
        then have "readdirSync d' (xmlFolder opts) = Inr []"
          by (simp add: readdirSync_def)
        with p Inr None m n l show ?thesis by auto
      qed
    next
      case (Some n)
      show ?thesis
      proof (cases n)
        case (File c)
        with p Inr Some show ?thesis by auto
      next
        case (Dir es)
        let ?d' = "store (resolve (xmlFolder opts)) (Dir []) d"
        from Some Dir obtain q where rp: "realpath d (xmlFolder opts) = Some q"
          and lp: "lookup d q = Some (Dir es)"
          by (auto simp: locate_def split: option.splits)
        have q: "q = resolve (xmlFolder opts)" using rp by (rule realpath_resolve)
        have "realpath (store q (Dir []) d) (xmlFolder opts) = Some q"
          using nd rp lp by (rule realpath_store_self)
        moreover have "lookup (store q (Dir []) d) q = Some (Dir [])"
          using lp by (rule lookup_store)
        ultimately have l: "locate ?d' (xmlFolder opts) = Some (Dir [])"
          using q by (simp add: locate_def)
        then have "readdirSync ?d' (xmlFolder opts) = Inr []"
          by (simp add: readdirSync_def)
        with p Inr Some Dir l show ?thesis by auto
      qed
    qed
  qed
qed

lemma example_wellFormed: "wellFormed example_disk"
  by (simp add: example_disk_def validName_def)

lemma example_split:
  "split CHR ''/'' ''./build/xml/'' = [''.'', ''build'', ''xml'', []]"
  "split CHR ''/'' ''./doxygen.config'' = [''.'', ''doxygen.config'']"
  "split CHR ''/'' ''nope/../build/xml'' = [''nope'', ''..'', ''build'', ''xml'']"
  "split CHR ''/'' ''./build'' = [''.'', ''build'']"
  "split CHR ''/'' ''./build/doxygen.config'' = [''.'', ''build'', ''doxygen.config'']"
  by simp_all

lemma example_resolve:
  "resolve ''./build/xml/'' = [''build'', ''xml'']"
  "resolve ''./doxygen.config'' = [''doxygen.config'']"
  by (simp_all add: resolve_def step_def)

lemma example_writeFileSync:
  "writeFileSync example_disk ''./doxygen.config'' ''# Doxyfile'' =
     Inr (Dir [(''src'', Dir [(''a.h'', File ''int a();'')]),
          (''build'', Dir [(''xml'', Dir [(''old.xml'', File ''stale''),
                                          (''sub'', Dir [(''deep.xml'', File ''stale'')])])]),
          (''doxygen.config'', File ''# Doxyfile'')])"
  by (simp add: writeFileSync_def example_split example_disk_def)

theorem prepare_empties_xmlFolder_witness:
  "wellFormed (disk example_world) \<and> outputXML example_options
   \<and> ''..'' \<notin> set (split CHR ''/'' (xmlFolder example_options))
   \<and> readdirSync (disk example_world) (xmlFolder example_options) = Inr [''old.xml'', ''sub'']
   \<and> fst (prepare example_env example_options example_world) = Normal ()
   \<and> readdirSync (disk (snd (prepare example_env example_options example_world)))
         (xmlFolder example_options) = Inr []"
proof -
  have wf: "wellFormed (disk example_world)"
    by (simp add: example_world_def example_wellFormed)
  have xml: "outputXML example_options"
    by (simp add: example_options_def)
  have nd: "''..'' \<notin> set (split CHR ''/'' (xmlFolder example_options))"
    by (simp add: example_options_def example_split)
  have before: "readdirSync (disk example_world) (xmlFolder example_options) = Inr [''old.xml'', ''sub'']"
    by (simp add: example_world_def example_options_def readdirSync_def locate_def realpath_def
        example_split example_disk_def)
  have wr: "writeFileSync (disk example_world) (doxygenConfigFile example_options)
       (configText example_env (doxyFileOptions example_options)) =
     Inr (Dir [(''src'', Dir [(''a.h'', File ''int a();'')]),
          (''build'', Dir [(''xml'', Dir [(''old.xml'', File ''stale''),
                                          (''sub'', Dir [(''deep.xml'', File ''stale'')])])]),
          (''doxygen.config'', File ''# Doxyfile'')])"
    using example_writeFileSync
    by (simp add: example_world_def example_options_def example_env_def)
  have loc: "locate (Dir [(''src'', Dir [(''a.h'', File ''int a();'')]),
          (''build'', Dir [(''xml'', Dir [(''old.xml'', File ''stale''),
                                          (''sub'', Dir [(''deep.xml'', File ''stale'')])])]),
          (''doxygen.config'', File ''# Doxyfile'')]) (xmlFolder example_options)
       = Some (Dir [(''old.xml'', File ''stale''), (''sub'', Dir [(''deep.xml'', File ''stale'')])])"
    by (simp add: example_options_def locate_def realpath_def example_split)
  from prepare_empties_xmlFolder[OF wf xml nd, of example_env] wr loc
  have "fst (prepare example_env example_options example_world) = Normal ()" by blast
  with prepare_empties_xmlFolder[OF wf xml nd, of example_env] wf xml nd before
  show ?thesis by blast
qed

text \<open>
  Claim C7 as it is written fails for a path of the XML folder that steps back over a
  directory that does not exist, here \<open>nope/../build/xml\<close>.  The path names nothing when
  \<open>prepare\<close> starts, so \<open>cleanDirectory\<close> does nothing; \<open>createDirectories\<close> then makes
  \<open>nope\<close>, after which the path names the folder \<open>build/xml\<close> with the files of the
  earlier run still in it.
\<close>

theorem prepare_stepping_back_counterexample:
  "wellFormed (disk example_world) \<and> outputXML stepping_back_options
   \<and> \<not> existsSync (disk example_world) (xmlFolder stepping_back_options)
   \<and> fst (prepare example_env stepping_back_options example_world) = Normal ()
   \<and> readdirSync (disk (snd (prepare example_env stepping_back_options example_world)))
         (xmlFolder stepping_back_options) = Inr [''old.xml'', ''sub'']"
proof -
  let ?d = "Dir [(''src'', Dir [(''a.h'', File ''int a();'')]),
          (''build'', Dir [(''xml'', Dir [(''old.xml'', File ''stale''),
                                          (''sub'', Dir [(''deep.xml'', File ''stale'')])])]),
          (''doxygen.config'', File ''# Doxyfile'')]"
  let ?d' = "Dir [(''src'', Dir [(''a.h'', File ''int a();'')]),
          (''build'', Dir [(''xml'', Dir [(''old.xml'', File ''stale''),
                                          (''sub'', Dir [(''deep.xml'', File ''stale'')])])]),
          (''doxygen.config'', File ''# Doxyfile''),
          (''nope'', Dir [])]"
  have wf: "wellFormed (disk example_world)"
    by (simp add: example_world_def example_wellFormed)
  have xml: "outputXML stepping_back_options"
    by (simp add: stepping_back_options_def example_options_def)
  have x: "xmlFolder stepping_back_options = ''nope/../build/xml''"
    by (simp add: stepping_back_options_def)
  have wr: "writeFileSync (disk example_world) (doxygenConfigFile stepping_back_options)
       (configText example_env (doxyFileOptions stepping_back_options)) = Inr ?d"
    using example_writeFileSync
    by (simp add: example_world_def stepping_back_options_def example_options_def example_env_def)
  have ab: "locate ?d (xmlFolder stepping_back_options) = None"
    by (simp add: x locate_def realpath_def example_split)
  have mk: "mkdirSync ?d (xmlFolder stepping_back_options) = (None, ?d')"
    by (simp add: x mkdirSync_def example_split)
  have "(fst (prepare example_env stepping_back_options example_world),
         disk (snd (prepare example_env stepping_back_options example_world))) = (Normal (), ?d')"
    using prepare_absent[OF xml wr ab] mk by simp
  then have n: "fst (prepare example_env stepping_back_options example_world) = Normal ()"
    and d: "disk (snd (prepare example_env stepping_back_options example_world)) = ?d'"
    by simp_all
  have "readdirSync ?d' (xmlFolder stepping_back_options) = Inr [''old.xml'', ''sub'']"
    by (simp add: x readdirSync_def locate_def realpath_def example_split)
  moreover have "\<not> existsSync (disk example_world) (xmlFolder stepping_back_options)"
    by (simp add: x existsSync_def locate_def realpath_def example_split example_world_def
        example_disk_def)
  ultimately show ?thesis using wf xml n d by simp
qed

lemma lookup_store_file_other:
  "\<not> prefix q p \<Longrightarrow> \<forall>es. lookup fs p \<noteq> Some (Dir es) \<Longrightarrow>
   lookup (store p (File t) fs) q = lookup fs q"
proof (induction p arbitrary: fs q)
  case Nil
  then obtain y q' where q: "q = y # q'" by (cases q) auto
  from Nil.prems(2) obtain c where "fs = File c" by (cases fs) auto
  with q show ?case by simp
next
  case (Cons x p)
  from Cons.prems(1) obtain y q' where q: "q = y # q'" by (cases q) auto
  show ?case
  proof (cases fs)
    case (File c)
    then show ?thesis by simp
  next
    case (Dir es)
    show ?thesis
    proof (cases "y = x")
      case False
      with Dir q show ?thesis by (simp add: update_conv' split: option.splits)
    next
      case True
      with Cons.prems(1) q have np: "\<not> prefix q' p" by simp
      show ?thesis
      proof (cases "map_of es x")
        case None
        show ?thesis
        proof (cases "p = []")
          case True
          with np obtain z q'' where "q' = z # q''" by (cases q') auto
          with Dir q None True \<open>y = x\<close> show ?thesis by (simp add: update_conv')
        next
          case False
          with Dir None show ?thesis by simp
        qed
      next
        case (Some m)
        have "\<forall>es. lookup m p \<noteq> Some (Dir es)" using Cons.prems(2) Dir Some by simp
        with np have "lookup (store p (File t) m) q' = lookup m q'" by (rule Cons.IH)
        with Dir q Some True show ?thesis by (simp add: update_conv')
      qed
    qed
  qed
qed

lemma writeFileSync_other:
  assumes "writeFileSync fs s txt = Inr d" and "\<not> prefix q (resolve s)"
  shows "lookup d q = lookup fs q"
proof -
  have "d = store (resolve s) (File txt) fs" and "\<forall>es. lookup fs (resolve s) \<noteq> Some (Dir es)"
    using assms(1) by (rule writeFileSync_store)+
  with assms(2) show ?thesis by (simp add: lookup_store_file_other)
qed

lemma called_emit [simp]: "called (emit m w) = called w"
  by (simp add: emit_def)

lemma printed_emit [simp]: "printed (emit m w) = printed w @ [m]"
  by (simp add: emit_def)

lemma called_record_call [simp]: "called (record_call c w) = called w @ [c]"
  by (simp add: record_call_def)

lemma printed_record_call [simp]: "printed (record_call c w) = printed w"
  by (simp add: record_call_def)

lemma called_external [simp]: "called (external c d w) = called w @ [c]"
  by (simp add: external_def)

lemma printed_external [simp]: "printed (external c d w) = printed w"
  by (simp add: external_def)





text \<open>
  Writing a file adds at most one name, which is a file; a walk that does not end at it can
  neither need it nor pass through it, so every other path leads where it led before.
\<close>

lemma lookup_below_file:
  "\<forall>es. lookup fs p \<noteq> Some (Dir es) \<Longrightarrow> prefix p r \<Longrightarrow> r \<noteq> p \<Longrightarrow> lookup fs r = None"
proof -
  assume nd: "\<forall>es. lookup fs p \<noteq> Some (Dir es)" and "prefix p r" and "r \<noteq> p"
  then obtain x xs where r: "r = p @ x # xs" by (cases "drop (length p) r") (auto simp: prefix_def)
  show ?thesis
  proof (cases "lookup fs p")
    case None
    with r show ?thesis by (simp add: lookup_append)
  next
    case (Some n)
    with nd obtain t where "n = File t" by (cases n) auto
    with Some r show ?thesis by (simp add: lookup_append)
  qed
qed

lemma walk_file_added:
  assumes k: "\<forall>r. r \<noteq> p \<longrightarrow>
      map_option isDirectory (lookup fs' r) = map_option isDirectory (lookup fs r)"
    and f': "lookup fs' p = Some (File t)" and f: "\<forall>es. lookup fs p \<noteq> Some (Dir es)"
  shows "walk fs r cs = Some q \<Longrightarrow> walk fs' r cs = Some q"
    and "walk fs' r cs = Some q \<Longrightarrow> q \<noteq> p \<Longrightarrow> walk fs r cs = Some q"
proof -
  have dir: "(\<exists>es. lookup fs' r = Some (Dir es)) \<longleftrightarrow> (\<exists>es. lookup fs r = Some (Dir es))" for r
  proof (cases "r = p")
    case True
    with f f' show ?thesis by simp
  next
    case False
    with k have "map_option isDirectory (lookup fs' r) = map_option isDirectory (lookup fs r)"
      by simp
    then show ?thesis by (simp only: kind_Dir[symmetric])
  qed
  have ex: "lookup fs r \<noteq> None \<Longrightarrow> lookup fs' r \<noteq> None" for r
  proof (cases "r = p")
    case True
    with f' show ?thesis by simp
  next
    case False
    assume "lookup fs r \<noteq> None"
    moreover from False k
    have "map_option isDirectory (lookup fs' r) = map_option isDirectory (lookup fs r)" by simp
    ultimately show ?thesis by (cases "lookup fs' r") auto
  qed
  have ex': "lookup fs' r \<noteq> None \<Longrightarrow> r \<noteq> p \<Longrightarrow> lookup fs r \<noteq> None" for r
  proof -
    assume a: "lookup fs' r \<noteq> None" and "r \<noteq> p"
    with k have "map_option isDirectory (lookup fs' r) = map_option isDirectory (lookup fs r)"
      by simp
    with a show ?thesis by (cases "lookup fs r") auto
  qed
  show "walk fs r cs = Some q \<Longrightarrow> walk fs' r cs = Some q"
  proof (induction cs arbitrary: r)
    case Nil
    then show ?case by simp
  next
    case (Cons c cs)
    from Cons.prems obtain es where d: "lookup fs r = Some (Dir es)"
      by (auto split: option.splits node.splits)
    with dir[of r] obtain es' where d': "lookup fs' r = Some (Dir es')" by blast
    show ?case
    proof (cases "c = [] \<or> c = ''.''")
      case True
      with Cons.prems d have "walk fs r cs = Some q" by simp
      then have "walk fs' r cs = Some q" by (rule Cons.IH)
      with True d' show ?thesis by simp
    next
      case False
      show ?thesis
      proof (cases "c = ''..''")
        case True
        with Cons.prems d have "walk fs (butlast r) cs = Some q" by simp
        then have "walk fs' (butlast r) cs = Some q" by (rule Cons.IH)
        with True d' show ?thesis by simp
      next
        case nd: False
        with False Cons.prems d have e: "lookup fs (r @ [c]) \<noteq> None"
          and w: "walk fs (r @ [c]) cs = Some q"
          by (simp_all split: if_splits)
        from w have "walk fs' (r @ [c]) cs = Some q" by (rule Cons.IH)
        with False nd d' ex[OF e] show ?thesis by simp
      qed
    qed
  qed
  show "walk fs' r cs = Some q \<Longrightarrow> q \<noteq> p \<Longrightarrow> walk fs r cs = Some q"
  proof (induction cs arbitrary: r)
    case Nil
    then show ?case by simp
  next
    case (Cons c cs)
    from Cons.prems(1) obtain es' where d': "lookup fs' r = Some (Dir es')"
      by (auto split: option.splits node.splits)
    with dir[of r] obtain es where d: "lookup fs r = Some (Dir es)" by blast
    show ?case
    proof (cases "c = [] \<or> c = ''.''")
      case True
      with Cons.prems(1) d' have "walk fs' r cs = Some q" by simp
      then have "walk fs r cs = Some q" using Cons.prems(2) by (rule Cons.IH)
      with True d show ?thesis by simp
    next
      case False
      show ?thesis
      proof (cases "c = ''..''")
        case True
        with Cons.prems(1) d' have "walk fs' (butlast r) cs = Some q" by simp
        then have "walk fs (butlast r) cs = Some q" using Cons.prems(2) by (rule Cons.IH)
        with True d show ?thesis by simp
      next
        case nd: False
        with False Cons.prems(1) d' have e': "lookup fs' (r @ [c]) \<noteq> None"
          and w: "walk fs' (r @ [c]) cs = Some q"
          by (simp_all split: if_splits)
        have np: "r @ [c] \<noteq> p"
        proof
          assume eq: "r @ [c] = p"
          with w f' have "cs = []" by (cases cs) simp_all
          with w eq Cons.prems(2) show False by simp
        qed
        from w have "walk fs (r @ [c]) cs = Some q" using Cons.prems(2) by (rule Cons.IH)
        with False nd d ex'[OF e' np] show ?thesis by simp
      qed
    qed
  qed
qed

lemma writeFileSync_file:
  assumes "writeFileSync fs s txt = Inr d"
  shows "lookup d (resolve s) = Some (File txt)"
proof -
  let ?cs = "split CHR ''/'' s"
  from assms obtain p es where w: "walk fs [] (butlast ?cs) = Some p"
    and lp: "lookup fs p = Some (Dir es)"
    and n: "last ?cs \<noteq> []" "last ?cs \<noteq> ''.''" "last ?cs \<noteq> ''..''"
    and d: "d = store (p @ [last ?cs]) (File txt) fs"
    by (auto simp: writeFileSync_def split: if_splits option.splits node.splits)
  have "d = store (resolve s) (File txt) fs" using assms by (rule writeFileSync_store(1))
  with d have "store (resolve s) (File txt) fs = store (p @ [last ?cs]) (File txt) fs" by simp
  moreover have "lookup (store (p @ [last ?cs]) (File txt) fs) (p @ [last ?cs]) = Some (File txt)"
    using lp by (rule lookup_store_new)
  moreover have "resolve s = p @ [last ?cs]"
  proof -
    have "?cs = butlast ?cs @ [last ?cs]" using split_not_Nil[of "CHR ''/''" s] by simp
    then have "resolve s = foldl step [] (butlast ?cs @ [last ?cs])" by (simp add: resolve_def)
    also have "\<dots> = step (foldl step [] (butlast ?cs)) (last ?cs)" by simp
    also have "\<dots> = step p (last ?cs)" using walk_step[OF w] by simp
    also have "\<dots> = p @ [last ?cs]" using n by (simp add: step_def)
    finally show ?thesis .
  qed
  ultimately show ?thesis using d by simp
qed

lemma writeFileSync_locate:
  assumes wr: "writeFileSync fs s txt = Inr d" and np: "\<not> prefix (resolve x) (resolve s)"
  shows "locate d x = locate fs x"
proof -
  let ?p = "resolve s"
  have d: "d = store ?p (File txt) fs" and f: "\<forall>es. lookup fs ?p \<noteq> Some (Dir es)"
    using wr by (rule writeFileSync_store)+
  have f': "lookup d ?p = Some (File txt)" using wr by (rule writeFileSync_file)
  have k: "\<forall>r. r \<noteq> ?p \<longrightarrow>
      map_option isDirectory (lookup d r) = map_option isDirectory (lookup fs r)"
  proof (intro allI impI)
    fix r assume ne: "r \<noteq> ?p"
    show "map_option isDirectory (lookup d r) = map_option isDirectory (lookup fs r)"
    proof (cases "prefix ?p r")
      case False
      then show ?thesis unfolding d by (rule kind_store)
    next
      case True
      have "lookup fs r = None" using f True ne by (rule lookup_below_file)
      moreover have "\<forall>es. lookup d ?p \<noteq> Some (Dir es)" using f' by simp
      then have "lookup d r = None" using True ne by (rule lookup_below_file)
      ultimately show ?thesis by simp
    qed
  qed
  show ?thesis
  proof (cases "x = []")
    case True
    then show ?thesis by (simp add: locate_def realpath_def)
  next
    case False
    let ?cs = "split CHR ''/'' x"
    show ?thesis
    proof (cases "walk d [] ?cs")
      case None
      have "walk fs [] ?cs = None"
      proof (cases "walk fs [] ?cs")
        case (Some q)
        with walk_file_added(1)[OF k f' f] have "walk d [] ?cs = Some q" by blast
        with None show ?thesis by simp
      qed simp
      with None False show ?thesis by (simp add: locate_def realpath_def)
    next
      case (Some q)
      then have "q = foldl step [] ?cs" by (rule walk_step)
      then have q: "q = resolve x" by (simp add: resolve_def)
      with np have "q \<noteq> ?p" by auto
      with walk_file_added(2)[OF k f' f] Some have w: "walk fs [] ?cs = Some q" by blast
      have "lookup d q = lookup fs q" using wr np q by (simp add: writeFileSync_other)
      with Some w False show ?thesis by (simp add: locate_def realpath_def)
    qed
  qed
qed

text \<open>
  The same frame as the file system itself reads the path of the XML folder, by walking it:
  without XML output, and with the configuration file outside the folder, the path leads
  where it led before, to the same contents or, as before, nowhere.
\<close>

lemma prepare_frame_locate:
  assumes "\<not> outputXML opts"
    and "\<not> prefix (resolve (xmlFolder opts)) (resolve (doxygenConfigFile opts))"
  shows "locate (disk (snd (prepare e opts w))) (xmlFolder opts) = locate (disk w) (xmlFolder opts)"
proof -
  let ?wr = "writeFileSync (disk w) (doxygenConfigFile opts) (configText e (doxyFileOptions opts))"
  have g: "map_of (doxyFileOptions opts) ''GENERATE_XML'' \<noteq> Some ''YES''"
    using assms(1) by (simp add: generate_xml)
  show ?thesis
  proof (cases ?wr)
    case (Inl x)
    then show ?thesis by (simp add: prepare_def createConfig_def)
  next
    case (Inr d)
    then have "locate d (xmlFolder opts) = locate (disk w) (xmlFolder opts)"
      using assms(2) by (rule writeFileSync_locate)
    with Inr g show ?thesis by (simp add: prepare_def createConfig_def)
  qed
qed

text \<open>
  Claim C9.  The directive \<open>EXTRACT_PRIVATE\<close> is \<open>YES\<close> if the access level is the text
  \<open>private\<close> and \<open>NO\<close> otherwise, so it is \<open>YES\<close> exactly for \<open>private\<close>; the directive
  \<open>EXTRACT_STATIC\<close> is \<open>NO\<close> for every access level.
\<close>

theorem extract_private_static:
  "map_of (doxyFileOptions opts) ''EXTRACT_PRIVATE''
     = Some (if accessLevel opts = ''private'' then ''YES'' else ''NO'')
   \<and> (map_of (doxyFileOptions opts) ''EXTRACT_PRIVATE'' = Some ''YES''
        \<longleftrightarrow> accessLevel opts = ''private'')
   \<and> map_of (doxyFileOptions opts) ''EXTRACT_STATIC'' = Some ''NO''"
  by (simp add: doxyFileOptions_def)

subsection \<open>The order of the steps\<close>

lemma called_on_disk [simp]: "called (snd (on_disk f w)) = called w"
  by (simp add: on_disk_def split: prod.splits option.splits)

lemma printed_on_disk [simp]: "printed (snd (on_disk f w)) = printed w"
  by (simp add: on_disk_def split: prod.splits option.splits)

lemma called_createConfig [simp]:
  "called (snd (createConfig e cfg file w)) = called w @ [Call_createConfig cfg file]"
  by (simp add: createConfig_def split: sum.splits)

lemma called_prepare:
  "called (snd (prepare e opts w)) =
     called w @ [Call_createConfig (doxyFileOptions opts) (doxygenConfigFile opts)]"
proof -
  let ?w0 = "if debug opts then emit (Log_CreatingConfig (doxygenConfigFile opts)) w else w"
  obtain c w1 where cc: "createConfig e (doxyFileOptions opts) (doxygenConfigFile opts) ?w0 = (c, w1)"
    by (cases "createConfig e (doxyFileOptions opts) (doxygenConfigFile opts) ?w0") auto
  have c1: "called w1 = called w @ [Call_createConfig (doxyFileOptions opts) (doxygenConfigFile opts)]"
    using called_createConfig[of e "doxyFileOptions opts" "doxygenConfigFile opts" ?w0] cc
    by simp
  let ?w1' = "if debug opts then emit Log_RunningDoxygen w1 else w1"
  obtain c2 w2 where cl: "on_disk (cleanDirectory (xmlFolder opts)) ?w1' = (c2, w2)"
    by (cases "on_disk (cleanDirectory (xmlFolder opts)) ?w1'") auto
  have c2: "called w2 = called w1"
    using called_on_disk[of "cleanDirectory (xmlFolder opts)" ?w1'] cl by simp
  obtain c3 w3 where cr: "on_disk (createDirectories [xmlFolder opts]) w2 = (c3, w3)"
    by (cases "on_disk (createDirectories [xmlFolder opts]) w2") auto
  have c3: "called w3 = called w2"
    using called_on_disk[of "createDirectories [xmlFolder opts]" w2] cr by simp
  show ?thesis
    unfolding prepare_def cc
    by (cases c; cases c2; cases c3) (simp_all add: cl cr c1 c2 c3)
qed

lemma called_checkXMLOutput [simp]: "called (snd (checkXMLOutput opts w)) = called w"
  by (simp add: checkXMLOutput_def split: sum.splits)

lemma called_finish [simp]: "called (snd (finish opts msgs w)) = called w"
proof -
  obtain c w' where x: "checkXMLOutput opts w = (c, w')" by (cases "checkXMLOutput opts w") auto
  have "called w' = called w" using called_checkXMLOutput[of opts w] x by simp
  then show ?thesis by (cases c) (simp_all add: finish_def x)
qed

lemma called_handleError [simp]: "called (snd (handleError opts error w)) = called w"
  by (simp add: handleError_def split: option.splits prod.splits)

lemma run_after_prepare:
  assumes "fst (checkInstallation e opts w) = Normal ()"
    and "fst (prepare e opts (snd (checkInstallation e opts w))) = Normal ()"
  shows "run e opts w =
     (case runTool e (doxygenConfigFile opts) (doxygenVersion opts)
             (disk (snd (prepare e opts (snd (checkInstallation e opts w))))) of
        (None, d) \<Rightarrow>
          finish opts []
            (external (Call_run (doxygenConfigFile opts) (doxygenVersion opts)) d
               (snd (prepare e opts (snd (checkInstallation e opts w)))))
      | (Some error, d) \<Rightarrow>
          handleError opts error
            (external (Call_run (doxygenConfigFile opts) (doxygenVersion opts)) d
               (snd (prepare e opts (snd (checkInstallation e opts w))))))"
proof -
  obtain w1 where a: "checkInstallation e opts w = (Normal (), w1)"
    using assms(1) by (cases "checkInstallation e opts w") auto
  obtain w2 where b: "prepare e opts w1 = (Normal (), w2)"
    using assms(2) a by (cases "prepare e opts w1") auto
  obtain r d where t: "runTool e (doxygenConfigFile opts) (doxygenVersion opts) (disk w2) = (r, d)"
    by (cases "runTool e (doxygenConfigFile opts) (doxygenVersion opts) (disk w2)") auto
  show ?thesis by (cases r) (simp_all add: run_def a b t)
qed

text \<open>
  Claim C8.  When the version is not installed and its download fails, \<open>run\<close> ends the
  process with status 1.  The only call to the package has been the download, so
  \<open>createConfig\<close> has not been called, and the disk is the one the download has left: no
  configuration file has been written.
\<close>

theorem download_failure_exits_before_config:
  assumes "\<not> isDoxygenExecutableInstalled e (doxygenVersion opts) (disk w)"
    and "\<not> fst (downloadVersion e (doxygenVersion opts) (disk w))"
  shows "fst (run e opts w) = Exit 1
       \<and> called (snd (run e opts w)) = called w @ [Call_downloadVersion (doxygenVersion opts)]
       \<and> disk (snd (run e opts w)) = snd (downloadVersion e (doxygenVersion opts) (disk w))
       \<and> printed (snd (run e opts w)) = printed w @ [Log_NotInstalled, Error_DownloadFailed]"
proof -
  obtain d where d: "downloadVersion e (doxygenVersion opts) (disk w) = (False, d)"
    using assms(2) by (cases "downloadVersion e (doxygenVersion opts) (disk w)") auto
  have "checkInstallation e opts w =
      (Exit 1, emit Error_DownloadFailed
                 (external (Call_downloadVersion (doxygenVersion opts)) d (emit Log_NotInstalled w)))"
    using assms(1) d by (simp add: checkInstallation_def)
  then show ?thesis using d by (simp add: run_def)
qed

theorem download_failure_exits_before_config_witness:
  "\<not> isDoxygenExecutableInstalled offline_env (doxygenVersion example_options) (disk example_world)
   \<and> \<not> fst (downloadVersion offline_env (doxygenVersion example_options) (disk example_world))
   \<and> fst (run offline_env example_options example_world) = Exit 1
   \<and> called (snd (run offline_env example_options example_world)) = [Call_downloadVersion ''1.9.6'']
   \<and> disk (snd (run offline_env example_options example_world)) = example_disk"
proof -
  have a: "\<not> isDoxygenExecutableInstalled offline_env (doxygenVersion example_options)
      (disk example_world)"
    by (simp add: offline_env_def)
  have b: "\<not> fst (downloadVersion offline_env (doxygenVersion example_options) (disk example_world))"
    by (simp add: offline_env_def)
  from download_failure_exits_before_config[OF a b] a b show ?thesis
    by (simp add: offline_env_def example_world_def example_options_def)
qed

text \<open>The calls to the package come in the order of the three steps.\<close>

lemma called_run:
  "called (snd (run e opts w)) =
     called (snd (checkInstallation e opts w)) @
       (if fst (checkInstallation e opts w) = Normal ()
        then Call_createConfig (doxyFileOptions opts) (doxygenConfigFile opts) #
          (if fst (prepare e opts (snd (checkInstallation e opts w))) = Normal ()
           then [Call_run (doxygenConfigFile opts) (doxygenVersion opts)] else [])
        else [])"
proof -
  obtain c1 w1 where a: "checkInstallation e opts w = (c1, w1)"
    by (cases "checkInstallation e opts w") auto
  obtain c2 w2 where b: "prepare e opts w1 = (c2, w2)"
    by (cases "prepare e opts w1") auto
  have cp: "called w2 = called w1 @ [Call_createConfig (doxyFileOptions opts) (doxygenConfigFile opts)]"
    using called_prepare[of e opts w1] b by simp
  obtain r d where t: "runTool e (doxygenConfigFile opts) (doxygenVersion opts) (disk w2) = (r, d)"
    by (cases "runTool e (doxygenConfigFile opts) (doxygenVersion opts) (disk w2)") auto
  show ?thesis
    by (cases c1; cases c2; cases r) (simp_all add: run_def a b cp t)
qed


subsection \<open>The check of the XML output\<close>

lemma example_prepare:
  "fst (prepare example_env example_options example_world) = Normal ()"
  "disk (snd (prepare example_env example_options example_world)) =
     Dir [(''src'', Dir [(''a.h'', File ''int a();'')]),
          (''build'', Dir [(''xml'', Dir [])]),
          (''doxygen.config'', File ''# Doxyfile'')]"
proof -
  have wf: "wellFormed (disk example_world)"
    by (simp add: example_world_def example_wellFormed)
  have xml: "outputXML example_options"
    by (simp add: example_options_def)
  have wr: "writeFileSync (disk example_world) (doxygenConfigFile example_options)
       (configText example_env (doxyFileOptions example_options)) =
     Inr (Dir [(''src'', Dir [(''a.h'', File ''int a();'')]),
          (''build'', Dir [(''xml'', Dir [(''old.xml'', File ''stale''),
                                          (''sub'', Dir [(''deep.xml'', File ''stale'')])])]),
          (''doxygen.config'', File ''# Doxyfile'')])"
    using example_writeFileSync
    by (simp add: example_world_def example_options_def example_env_def)
  have x: "xmlFolder example_options = ''./build/xml/''"
    by (simp add: example_options_def)
  have nd: "''..'' \<notin> set (split CHR ''/'' (xmlFolder example_options))"
    by (simp add: example_options_def example_split)
  from prepare_outputXML[OF wf xml nd, of example_env]
  have "(fst (prepare example_env example_options example_world),
         disk (snd (prepare example_env example_options example_world))) =
        (Normal (), Dir [(''src'', Dir [(''a.h'', File ''int a();'')]),
          (''build'', Dir [(''xml'', Dir [])]),
          (''doxygen.config'', File ''# Doxyfile'')])"
    by (simp add: wr x locate_def realpath_def example_split example_resolve)
  then show "fst (prepare example_env example_options example_world) = Normal ()"
    and "disk (snd (prepare example_env example_options example_world)) =
     Dir [(''src'', Dir [(''a.h'', File ''int a();'')]),
          (''build'', Dir [(''xml'', Dir [])]),
          (''doxygen.config'', File ''# Doxyfile'')]"
    by simp_all
qed

text \<open>
  Claim C6.  Let the listing of the XML folder on a disk give \<open>files\<close>.  On a world with
  this disk \<open>checkXMLOutput\<close> ends the process with status 1 when there is no file and
  returns otherwise, whatever the debug option.  In a run that asks for XML output, whose
  installation check and \<open>prepare\<close> return and whose tool leaves this disk, without an
  error or with one that does not carry the marker of a missing library, \<open>run\<close> ends the
  process with status 1 when there is no file, and otherwise returns the messages.
\<close>

theorem xml_output_check:
  assumes "readdirSync d (xmlFolder opts) = Inr files"
  shows "(disk w = d \<longrightarrow> fst (checkXMLOutput opts w) = (if files = [] then Exit 1 else Normal ()))
       \<and> (outputXML opts
            \<and> fst (checkInstallation e opts w0) = Normal ()
            \<and> fst (prepare e opts (snd (checkInstallation e opts w0))) = Normal ()
            \<and> runTool e (doxygenConfigFile opts) (doxygenVersion opts)
                 (disk (snd (prepare e opts (snd (checkInstallation e opts w0))))) = (r, d)
            \<and> (\<forall>error. r = Some error \<longrightarrow> \<not> includes_str (message error) missingLibsErrorMessage)
          \<longrightarrow> fst (run e opts w0) =
               (if files = [] then Exit 1
                else Normal (case r of
                               None \<Rightarrow> []
                             | Some error \<Rightarrow>
                                 snd (extractValidationMessages (debug opts) (stderr error)))))"
proof -
  have check: "fst (checkXMLOutput opts w') = (if files = [] then Exit 1 else Normal ())"
    if "disk w' = d" for w'
    using assms that by (simp add: checkXMLOutput_def)
  have fin: "fst (finish opts msgs w') = (if files = [] then Exit 1 else Normal msgs)"
    if "disk w' = d" "outputXML opts" for w' msgs
  proof -
    obtain c w'' where x: "checkXMLOutput opts w' = (c, w'')"
      by (cases "checkXMLOutput opts w'") auto
    with check[OF that(1)] have "c = (if files = [] then Exit 1 else Normal ())" by simp
    with x that(2) show ?thesis by (simp add: finish_def)
  qed
  show ?thesis
  proof (intro conjI impI)
    assume "disk w = d"
    then show "fst (checkXMLOutput opts w) = (if files = [] then Exit 1 else Normal ())"
      by (rule check)
  next
    assume h: "outputXML opts
            \<and> fst (checkInstallation e opts w0) = Normal ()
            \<and> fst (prepare e opts (snd (checkInstallation e opts w0))) = Normal ()
            \<and> runTool e (doxygenConfigFile opts) (doxygenVersion opts)
                 (disk (snd (prepare e opts (snd (checkInstallation e opts w0))))) = (r, d)
            \<and> (\<forall>error. r = Some error \<longrightarrow> \<not> includes_str (message error) missingLibsErrorMessage)"
    let ?w2 = "snd (prepare e opts (snd (checkInstallation e opts w0)))"
    let ?w3 = "external (Call_run (doxygenConfigFile opts) (doxygenVersion opts)) d ?w2"
    have d3: "disk ?w3 = d" by simp
    show "fst (run e opts w0) =
               (if files = [] then Exit 1
                else Normal (case r of
                               None \<Rightarrow> []
                             | Some error \<Rightarrow>
                                 snd (extractValidationMessages (debug opts) (stderr error))))"
    proof (cases r)
      case None
      with h have "run e opts w0 = finish opts [] ?w3"
        by (simp add: run_after_prepare)
      with fin[OF d3, of "[]"] h None show ?thesis by simp
    next
      case (Some error)
      with h have n: "\<not> includes_str (message error) missingLibsErrorMessage" by simp
      obtain out msgs where ex: "extractValidationMessages (debug opts) (stderr error) = (out, msgs)"
        by (cases "extractValidationMessages (debug opts) (stderr error)") auto
      from Some h have "run e opts w0 = handleError opts error ?w3"
        by (simp add: run_after_prepare)
      also have "\<dots> = finish opts msgs (?w3\<lparr>printed := printed ?w3 @ out\<rparr>)"
        using n ex by (simp add: handleError_def)
      finally have "fst (run e opts w0) = (if files = [] then Exit 1 else Normal msgs)"
        using fin[of "?w3\<lparr>printed := printed ?w3 @ out\<rparr>" msgs] h by simp
      with Some ex show ?thesis by simp
    qed
  qed
qed

lemma example_checkInstallation:
  "checkInstallation example_env example_options example_world = (Normal (), example_world)"
  by (simp add: checkInstallation_def example_env_def)

lemma example_runTool:
  "runTool example_env file version d =
     (None, store [''build'', ''xml'', ''index.xml''] (File ''<doxygenindex/>'') d)"
  by (simp add: example_env_def)

theorem xml_output_check_witness:
  "readdirSync
      (Dir [(''src'', Dir [(''a.h'', File ''int a();'')]),
            (''build'', Dir [(''xml'', Dir [(''index.xml'', File ''<doxygenindex/>'')])]),
            (''doxygen.config'', File ''# Doxyfile'')])
      (xmlFolder example_options) = Inr [''index.xml'']
   \<and> outputXML example_options
   \<and> fst (checkInstallation example_env example_options example_world) = Normal ()
   \<and> fst (prepare example_env example_options
            (snd (checkInstallation example_env example_options example_world))) = Normal ()
   \<and> fst (run example_env example_options example_world) = Normal []"
proof -
  let ?d = "Dir [(''src'', Dir [(''a.h'', File ''int a();'')]),
            (''build'', Dir [(''xml'', Dir [(''index.xml'', File ''<doxygenindex/>'')])]),
            (''doxygen.config'', File ''# Doxyfile'')]"
  have a: "readdirSync ?d (xmlFolder example_options) = Inr [''index.xml'']"
    by (simp add: readdirSync_def locate_def realpath_def example_options_def example_split)
  have b: "outputXML example_options" by (simp add: example_options_def)
  have c: "fst (checkInstallation example_env example_options example_world) = Normal ()"
    by (simp add: example_checkInstallation)
  have p: "fst (prepare example_env example_options
            (snd (checkInstallation example_env example_options example_world))) = Normal ()"
    by (simp add: example_checkInstallation example_prepare)
  have t: "runTool example_env (doxygenConfigFile example_options) (doxygenVersion example_options)
      (disk (snd (prepare example_env example_options
         (snd (checkInstallation example_env example_options example_world))))) = (None, ?d)"
    by (simp add: example_checkInstallation example_prepare example_runTool)
  have n: "\<forall>error. (None :: exec_error option) = Some error \<longrightarrow>
      \<not> includes_str (message error) missingLibsErrorMessage" by simp
  from xml_output_check[OF a, of example_world example_env example_world None] b c p t n
  have "fst (run example_env example_options example_world) = Normal []"
    by simp
  with a b c p show ?thesis by simp
qed


subsection \<open>The missing library\<close>

text \<open>
  A match is an array of two texts, so the alternative \<open>unknown\<close> is never taken: with
  the marker in the message, the handler throws when the pattern does not match and
  reports the text of the group when it does.
\<close>

lemma matchAt_length: "matchAt pre grp s = Some m \<Longrightarrow> length m = 2"
  by (auto simp: matchAt_def split: list.splits)

lemma matchFirst_length: "matchFirst pre grp s = Some m \<Longrightarrow> length m = 2"
  by (induction s) (auto simp: matchAt_length split: option.splits)

lemma handleError_missing_library:
  assumes "includes_str (message error) missingLibsErrorMessage"
  shows "handleError opts error w =
     (case matchFirst (literal (missingLibsErrorMessage @ '' '')) [Plus Dot] (message error) of
        None \<Rightarrow> (Throw TypeError, w)
      | Some matches \<Rightarrow> (Exit 1, emit (Error_MissingLibraries (matches ! 1)) w))"
  using assms by (auto simp: handleError_def dest: matchFirst_length split: option.splits)

text \<open>
  The pattern fails to match, and the handler throws, exactly when no occurrence of the
  marker in the message is followed by a space and a character of the same line.
\<close>

lemma rests_literal_only:
  "rests (literal w) s = (if prefix w s then [drop (length w) s] else [])"
  using rests_literal[of w "[]" s] by simp

lemma rests_Plus_Nil: "rests [Plus a] s = [] \<longleftrightarrow> (case s of [] \<Rightarrow> True | c # cs \<Rightarrow> \<not> atomMatches a c)"
  by (cases s) auto

lemma matchAt_None:
  "matchAt (literal w) [Plus Dot] s = None \<longleftrightarrow>
     \<not> (\<exists>c b. s = w @ c # b \<and> \<not> isLineTerminator c)"
proof (cases "prefix w s")
  case False
  then have "matchAt (literal w) [Plus Dot] s = None"
    by (simp add: matchAt_def rests_literal_only)
  moreover have "\<not> (\<exists>c b. s = w @ c # b \<and> \<not> isLineTerminator c)"
    using False by (auto simp: prefix_def)
  ultimately show ?thesis by simp
next
  case True
  then obtain r where r: "s = w @ r" by (auto simp: prefix_def)
  have "matchAt (literal w) [Plus Dot] s = None \<longleftrightarrow> rests [Plus Dot] r = []"
    using r by (cases "rests [Plus Dot] r") (simp_all add: matchAt_def rests_literal_only)
  also have "\<dots> \<longleftrightarrow> \<not> (\<exists>c b. r = c # b \<and> \<not> isLineTerminator c)"
    by (cases r) (simp_all add: rests_Plus_Nil)
  also have "\<dots> \<longleftrightarrow> \<not> (\<exists>c b. s = w @ c # b \<and> \<not> isLineTerminator c)"
    using r by simp
  finally show ?thesis .
qed

lemma matchFirst_None:
  "matchFirst (literal w) [Plus Dot] s = None \<longleftrightarrow>
     \<not> (\<exists>a c b. s = a @ w @ c # b \<and> \<not> isLineTerminator c)"
proof (induction s)
  case Nil
  show ?case by (simp add: matchAt_None)
next
  case (Cons x s)
  have "matchFirst (literal w) [Plus Dot] (x # s) = None \<longleftrightarrow>
      matchAt (literal w) [Plus Dot] (x # s) = None \<and> matchFirst (literal w) [Plus Dot] s = None"
    by (simp split: option.splits)
  also have "\<dots> \<longleftrightarrow> \<not> (\<exists>c b. x # s = w @ c # b \<and> \<not> isLineTerminator c)
      \<and> \<not> (\<exists>a c b. s = a @ w @ c # b \<and> \<not> isLineTerminator c)"
    by (simp only: matchAt_None Cons.IH)
  also have "\<dots> \<longleftrightarrow> \<not> (\<exists>a c b. x # s = a @ w @ c # b \<and> \<not> isLineTerminator c)"
  proof -
    have "(\<exists>a c b. x # s = a @ w @ c # b \<and> \<not> isLineTerminator c) \<longleftrightarrow>
        (\<exists>c b. x # s = w @ c # b \<and> \<not> isLineTerminator c)
        \<or> (\<exists>a c b. s = a @ w @ c # b \<and> \<not> isLineTerminator c)"
    proof
      assume "\<exists>a c b. x # s = a @ w @ c # b \<and> \<not> isLineTerminator c"
      then obtain a c b where h: "x # s = a @ w @ c # b" "\<not> isLineTerminator c" by blast
      show "(\<exists>c b. x # s = w @ c # b \<and> \<not> isLineTerminator c)
        \<or> (\<exists>a c b. s = a @ w @ c # b \<and> \<not> isLineTerminator c)"
      proof (cases a)
        case Nil
        with h show ?thesis by auto
      next
        case (Cons y a')
        with h have "s = a' @ w @ c # b" by simp
        with h(2) show ?thesis by blast
      qed
    next
      assume "(\<exists>c b. x # s = w @ c # b \<and> \<not> isLineTerminator c)
        \<or> (\<exists>a c b. s = a @ w @ c # b \<and> \<not> isLineTerminator c)"
      then show "\<exists>a c b. x # s = a @ w @ c # b \<and> \<not> isLineTerminator c"
      proof
        assume "\<exists>c b. x # s = w @ c # b \<and> \<not> isLineTerminator c"
        then obtain c b where "x # s = [] @ w @ c # b" "\<not> isLineTerminator c" by auto
        then show ?thesis by blast
      next
        assume "\<exists>a c b. s = a @ w @ c # b \<and> \<not> isLineTerminator c"
        then obtain a c b where "x # s = (x # a) @ w @ c # b" "\<not> isLineTerminator c" by auto
        then show ?thesis by blast
      qed
    qed
    then show ?thesis by simp
  qed
  finally show ?case .
qed

lemma handleError_TypeError:
  assumes "includes_str (message error) missingLibsErrorMessage"
  shows "fst (handleError opts error w) = Throw TypeError \<longleftrightarrow>
     \<not> (\<exists>a c b. message error = a @ missingLibsErrorMessage @ '' '' @ c # b
            \<and> \<not> isLineTerminator c)"
proof -
  have "fst (handleError opts error w) = Throw TypeError \<longleftrightarrow>
      matchFirst (literal (missingLibsErrorMessage @ '' '')) [Plus Dot] (message error) = None"
    using assms by (simp add: handleError_def split: option.splits)
  then show ?thesis by (simp add: matchFirst_None)
qed

lemma failing_checkInstallation:
  "checkInstallation failing_env opts example_world = (Normal (), example_world)"
  by (simp add: checkInstallation_def failing_env_def example_env_def)

lemma failing_prepare:
  "fst (prepare failing_env plain_options example_world) = Normal ()"
  "printed (snd (prepare failing_env plain_options example_world)) = []"
proof -
  have wr: "writeFileSync (disk example_world) (doxygenConfigFile plain_options)
       (configText failing_env (doxyFileOptions plain_options)) =
     Inr (Dir [(''src'', Dir [(''a.h'', File ''int a();'')]),
          (''build'', Dir [(''xml'', Dir [(''old.xml'', File ''stale''),
                                          (''sub'', Dir [(''deep.xml'', File ''stale'')])])]),
          (''doxygen.config'', File ''# Doxyfile'')])"
    using example_writeFileSync
    by (simp add: example_world_def plain_options_def example_options_def failing_env_def
        example_env_def)
  have o: "\<not> outputXML plain_options" "\<not> debug plain_options"
    by (simp_all add: plain_options_def example_options_def)
  have g: "map_of (doxyFileOptions plain_options) ''GENERATE_XML'' \<noteq> Some ''YES''"
    using o(1) by (simp add: generate_xml)
  show "fst (prepare failing_env plain_options example_world) = Normal ()"
    using wr o g by (simp add: prepare_def createConfig_def)
  show "printed (snd (prepare failing_env plain_options example_world)) = []"
    using wr o g by (simp add: prepare_def createConfig_def example_world_def)
qed

lemma failing_runTool: "runTool failing_env file version d = (Some failing_error, d)"
  by (simp add: failing_env_def)

lemma marker_alone:
  "includes_str (message failing_error) missingLibsErrorMessage"
  "matchFirst (literal (missingLibsErrorMessage @ '' '')) [Plus Dot] (message failing_error) = None"
  by (simp_all add: failing_error_def missingLibsErrorMessage_def matchAt_def literal_def)

text \<open>
  Claim C1, on the error whose message ends with the marker.  The message contains the
  marker, the pattern does not match, and reading the length of \<open>null\<close> throws: \<open>run\<close>
  ends with a \<open>TypeError\<close>, the process does not exit, and nothing is printed, neither a
  library name nor \<open>unknown\<close>.
\<close>

theorem missing_library_without_name:
  "includes_str (message failing_error) missingLibsErrorMessage
   \<and> fst (run failing_env plain_options example_world) = Throw TypeError
   \<and> printed (snd (run failing_env plain_options example_world)) = []"
proof -
  let ?w2 = "snd (prepare failing_env plain_options example_world)"
  let ?w3 = "external (Call_run (doxygenConfigFile plain_options) (doxygenVersion plain_options))
      (disk ?w2) ?w2"
  have "run failing_env plain_options example_world = handleError plain_options failing_error ?w3"
    by (simp add: run_after_prepare failing_checkInstallation failing_prepare failing_runTool)
  also have "\<dots> = (Throw TypeError, ?w3)"
    by (simp add: handleError_def marker_alone)
  finally show ?thesis
    by (simp add: marker_alone failing_prepare)
qed

text \<open>With a text behind the marker, the rest of its line is reported and the process exits.\<close>

lemma missing_library_with_name:
  "handleError opts
     \<lparr>message = ''doxygen: error while loading shared libraries: libclang.so.9: cannot open shared object file'',
      stderr = []\<rparr> w =
   (Exit 1, emit (Error_MissingLibraries ''libclang.so.9: cannot open shared object file'') w)"
proof -
  have "includes_str
      ''doxygen: error while loading shared libraries: libclang.so.9: cannot open shared object file''
      missingLibsErrorMessage"
    by (simp add: missingLibsErrorMessage_def)
  moreover have "matchFirst (literal (missingLibsErrorMessage @ '' '')) [Plus Dot]
      ''doxygen: error while loading shared libraries: libclang.so.9: cannot open shared object file''
      = Some [''error while loading shared libraries: libclang.so.9: cannot open shared object file'',
              ''libclang.so.9: cannot open shared object file'']"
    by (simp add: missingLibsErrorMessage_def matchAt_def literal_def isLineTerminator_def)
  ultimately show ?thesis by (simp add: handleError_def)
qed

end
